theory Spec2Isabelle
  imports Main "HOL-Library.Option_ord" "HOL-Library.Multiset"
begin

section \<open>Device records and the platform\<close>

text \<open>
  One row of the \<^verbatim>\<open>api_devices\<close> collection. The hooks read and write the fields
  through \<^verbatim>\<open>get\<close>/\<^verbatim>\<open>set\<close>; every field they touch is a field here. A value that
  JavaScript treats as false in \<^verbatim>\<open>a || b\<close> or \<^verbatim>\<open>!a\<close> (null, undefined, the empty
  string the store keeps for an unset text or date column) is \<open>None\<close>, or \<open>Some []\<close>
  for a text column. A date that is set is the number of milliseconds that
  \<^verbatim>\<open>new Date(value)\<close> yields.
\<close>

record device =
  ident :: string
  device_fingerprint :: "string option"
  user_id :: "string option"
  current_user_id :: "string option"
  active :: bool
  session_status :: string
  last_activity :: "int option"
  last_used :: "int option"
  created :: "int option"
  current_session_start :: "int option"
  device_notes :: "string option"

text \<open>
  What the jobs use of the runtime: the readings of \<^verbatim>\<open>new Date()\<close>, one per call, in
  the order of the calls; \<^verbatim>\<open>toISOString\<close>; and which writes the record store refuses.
\<close>

record platform =
  clock :: "nat \<Rightarrow> int"
  toISOString :: "int \<Rightarrow> string"
  save_fails :: "device \<Rightarrow> bool"
  delete_fails :: "device \<Rightarrow> bool"

text \<open>The collection, in table order, and the number of clock readings taken so far.\<close>

record world =
  rows :: "device list"
  tick :: nat

text \<open>
  A refused write throws, and so does a call of \<^verbatim>\<open>push\<close> on a value that has none. Code
  that may throw returns \<open>Inl\<close> with the error and the world at the throw, or \<open>Inr\<close>
  with the world it reached. A job ends \<open>Completed\<close>, or \<open>Caught\<close> when the \<^verbatim>\<open>catch\<close>
  block around its body ran, which logs the error's message.
\<close>

datatype error = StoreWriteFailure | TypeError

datatype outcome = Completed | Caught error

type_synonym attempt = "(error \<times> world) + world"

text \<open>Whether a text value counts as true in \<^verbatim>\<open>if (value)\<close> and \<^verbatim>\<open>value ? a : b\<close>.\<close>

definition truthy :: "string option \<Rightarrow> bool" where
  "truthy s = (case s of None \<Rightarrow> False | Some v \<Rightarrow> v \<noteq> [])"

text \<open>\<^verbatim>\<open>new Date()\<close>: the value is the next reading, and the count of readings goes up.\<close>

definition reading :: "platform \<Rightarrow> world \<Rightarrow> int" where
  "reading P w = clock P (tick w)"

definition ticked :: "world \<Rightarrow> world" where
  "ticked w = w\<lparr>tick := Suc (tick w)\<rparr>"

subsection \<open>The record store\<close>

text \<open>
  Modelled from the spec: \<^verbatim>\<open>save(record)\<close> and \<^verbatim>\<open>delete(id)\<close> of the record store, the
  platform's \<^verbatim>\<open>$app.dao().saveRecord\<close> and \<^verbatim>\<open>deleteRecord\<close>, which are not part of the
  repository. \<^verbatim>\<open>save\<close> is an upsert by id, \<^verbatim>\<open>delete\<close> removes the row with the record's
  id. A write that the store refuses throws and leaves the table as it was.
\<close>

definition upsert :: "device \<Rightarrow> device list \<Rightarrow> device list" where
  "upsert d rs =
     (if ident d \<in> set (map ident rs)
      then map (\<lambda>r. if ident r = ident d then d else r) rs
      else rs @ [d])"

definition saveRecord :: "platform \<Rightarrow> device \<Rightarrow> world \<Rightarrow> attempt" where
  "saveRecord P d w =
     (if save_fails P d then Inl (StoreWriteFailure, w)
      else Inr (w\<lparr>rows := upsert d (rows w)\<rparr>))"

definition deleteRecord :: "platform \<Rightarrow> device \<Rightarrow> world \<Rightarrow> attempt" where
  "deleteRecord P d w =
     (if delete_fails P d then Inl (StoreWriteFailure, w)
      else Inr (w\<lparr>rows := filter (\<lambda>r. ident r \<noteq> ident d) (rows w)\<rparr>))"

text \<open>
  Modelled from the spec: \<^verbatim>\<open>query(filter, sort, limit, offset)\<close> of the record store, the
  platform's \<^verbatim>\<open>findRecordsByFilter\<close>, which is not part of the repository. It returns
  the rows that match the filter, in sort order, \<^verbatim>\<open>limit\<close> of them from \<^verbatim>\<open>offset\<close> on.
  A sort key \<^verbatim>\<open>-field\<close> puts the rows in descending order of the field, an unset value
  last, rows with equal values in the order they had. A query that cannot be served is
  outside the model.
\<close>

definition sort_desc :: "(device \<Rightarrow> int option) \<Rightarrow> device list \<Rightarrow> device list" where
  "sort_desc f xs = rev (sort_key f (rev xs))"

definition findRecordsByFilter ::
  "device list \<Rightarrow> (device \<Rightarrow> bool) \<Rightarrow> (device list \<Rightarrow> device list) \<Rightarrow> nat \<Rightarrow> nat \<Rightarrow> device list" where
  "findRecordsByFilter table flt srt lim off = take lim (drop off (srt (filter flt table)))"

text \<open>The sort strings \<^verbatim>\<open>"-last_activity,-last_used,-created"\<close>, \<^verbatim>\<open>"-last_activity,-last_used"\<close> and \<^verbatim>\<open>""\<close>.\<close>

definition by_activity_used_created :: "device list \<Rightarrow> device list" where
  "by_activity_used_created xs = sort_desc last_activity (sort_desc last_used (sort_desc created xs))"

definition by_activity_used :: "device list \<Rightarrow> device list" where
  "by_activity_used xs = sort_desc last_activity (sort_desc last_used xs)"

definition unsorted :: "device list \<Rightarrow> device list" where
  "unsorted xs = xs"

section \<open>Grouping by fingerprint\<close>

text \<open>
  \<^verbatim>\<open>fingerprintGroups = {}\<close> is a plain JavaScript object used as a dictionary from
  fingerprint to the array of its devices; the list below holds its own properties in
  the order of their creation. \<^verbatim>\<open>fingerprintGroups[fingerprint]\<close> also finds what every
  object inherits from \<^verbatim>\<open>Object.prototype\<close>: for a fingerprint that is one of these
  names the test \<^verbatim>\<open>!fingerprintGroups[fingerprint]\<close> is false, no array is created, and
  \<^verbatim>\<open>fingerprintGroups[fingerprint].push(device)\<close> throws a \<^verbatim>\<open>TypeError\<close>.
\<close>

type_synonym groups = "(string \<times> device list) list"

definition inherited_names :: "string list" where
  "inherited_names =
     [''constructor'', ''toString'', ''toLocaleString'', ''valueOf'', ''hasOwnProperty'',
      ''isPrototypeOf'', ''propertyIsEnumerable'', ''__proto__'', ''__defineGetter__'',
      ''__defineSetter__'', ''__lookupGetter__'', ''__lookupSetter__'']"

fun push_device :: "string \<Rightarrow> device \<Rightarrow> groups \<Rightarrow> groups" where
  "push_device fp d [] = [(fp, [d])]"
| "push_device fp d ((k, ds) # gs) =
     (if k = fp then (k, ds @ [d]) # gs else (k, ds) # push_device fp d gs)"

fun group_devices :: "device list \<Rightarrow> groups \<Rightarrow> error + groups" where
  "group_devices [] gs = Inr gs"
| "group_devices (d # ds) gs =
     (case device_fingerprint d of
        None \<Rightarrow> group_devices ds gs
      | Some fp \<Rightarrow> if fp = [] then group_devices ds gs
                   else if fp \<in> set inherited_names then Inl TypeError
                   else group_devices ds (push_device fp d gs))"

text \<open>
  \<^verbatim>\<open>for (let fingerprint in fingerprintGroups)\<close> visits the properties that are array
  indices first, in ascending numeric order, and the others after them in the order of
  their creation. An array index is the decimal numeral, without a leading zero, of a
  number below 4294967295.
\<close>

definition numeral_value :: "string \<Rightarrow> int" where
  "numeral_value s = foldl (\<lambda>n c. 10 * n + (of_char c - 48)) 0 s"

definition array_index :: "string \<Rightarrow> int option" where
  "array_index s =
     (if s \<noteq> [] \<and> (\<forall>c \<in> set s. c \<in> set ''0123456789'')
         \<and> (hd s \<noteq> CHR ''0'' \<or> s = ''0'') \<and> numeral_value s < 4294967295
      then Some (numeral_value s) else None)"

definition for_in :: "groups \<Rightarrow> groups" where
  "for_in gs =
     sort_key (\<lambda>g. the (array_index (fst g))) (filter (\<lambda>g. array_index (fst g) \<noteq> None) gs)
     @ filter (\<lambda>g. array_index (fst g) = None) gs"

section \<open>The daily sweep: \<^verbatim>\<open>device_cleanup\<close>\<close>

text \<open>
  \<^verbatim>\<open>a.get("last_activity") || a.get("last_used") || a.get("created") || 0\<close>, as a date.
\<close>

definition activity :: "device \<Rightarrow> int" where
  "activity d =
     (case last_activity d of Some t \<Rightarrow> t
      | None \<Rightarrow> (case last_used d of Some t \<Rightarrow> t
         | None \<Rightarrow> (case created d of Some t \<Rightarrow> t | None \<Rightarrow> 0)))"

text \<open>
  \<^verbatim>\<open>devices.sort((a, b) => bActivity - aActivity)\<close>: the array sort is stable, so
  devices with equal activity keep their order.
\<close>

definition sort_by_activity :: "device list \<Rightarrow> device list" where
  "sort_by_activity devices = sort_key (\<lambda>d. - activity d) devices"

definition keep_primary :: "int \<Rightarrow> device \<Rightarrow> device" where
  "keep_primary t d =
     d\<lparr>active := True,
       session_status := (if truthy (current_user_id d) then ''active'' else ''logged_out''),
       last_activity := Some t\<rparr>"

definition append_note :: "string option \<Rightarrow> string \<Rightarrow> string option" where
  "append_note existingNotes note =
     (case existingNotes of
        None \<Rightarrow> Some note
      | Some e \<Rightarrow> if e = [] then Some note else Some (e @ ''; '' @ note))"

definition cleanupNote :: "platform \<Rightarrow> string \<Rightarrow> int \<Rightarrow> string" where
  "cleanupNote P pre t = pre @ ''Deactivated by cleanup job on '' @ toISOString P t"

definition deactivate :: "platform \<Rightarrow> string \<Rightarrow> int \<Rightarrow> int \<Rightarrow> device \<Rightarrow> device" where
  "deactivate P pre t1 t2 d =
     d\<lparr>active := False,
       session_status := ''logged_out'',
       last_activity := Some t1,
       current_user_id := None,
       current_session_start := None,
       device_notes := append_note (device_notes d) (cleanupNote P pre t2)\<rparr>"

text \<open>The loop \<^verbatim>\<open>for (let i = 1; i < devices.length; i++)\<close> over the sorted group.\<close>

fun deactivate_duplicates :: "platform \<Rightarrow> string \<Rightarrow> device list \<Rightarrow> world \<Rightarrow> attempt" where
  "deactivate_duplicates P pre [] w = Inr w"
| "deactivate_duplicates P pre (d # ds) w =
     (let t1 = reading P w; w1 = ticked w;
          t2 = reading P w1; w2 = ticked w1
      in case saveRecord P (deactivate P pre t1 t2 d) w2 of
           Inl e \<Rightarrow> Inl e
         | Inr w3 \<Rightarrow> deactivate_duplicates P pre ds w3)"

text \<open>The body of the loop over the groups, for a group of more than one device.\<close>

definition process_duplicates :: "platform \<Rightarrow> string \<Rightarrow> device list \<Rightarrow> world \<Rightarrow> attempt" where
  "process_duplicates P pre devices w =
     (case sort_by_activity devices of
        [] \<Rightarrow> Inr w
      | primaryDevice # duplicates \<Rightarrow>
          (let t = reading P w; w1 = ticked w
           in case saveRecord P (keep_primary t primaryDevice) w1 of
                Inl e \<Rightarrow> Inl e
              | Inr w2 \<Rightarrow> deactivate_duplicates P pre duplicates w2))"

fun process_groups :: "platform \<Rightarrow> string \<Rightarrow> groups \<Rightarrow> world \<Rightarrow> attempt" where
  "process_groups P pre [] w = Inr w"
| "process_groups P pre ((fp, devices) # gs) w =
     (if length devices \<le> 1 then process_groups P pre gs w
      else case process_duplicates P pre devices w of
             Inl e \<Rightarrow> Inl e
           | Inr w' \<Rightarrow> process_groups P pre gs w')"

text \<open>
  The job, with its \<^verbatim>\<open>try\<close>/\<^verbatim>\<open>catch\<close> around the whole pass. \<^verbatim>\<open>test_device_cleanup\<close> is
  the same text with \<^verbatim>\<open>TEST: \<close> in front of the note and without the last line of the
  summary, \<^verbatim>\<open>Cleanup Stats: ${new Date().toISOString()}\<close>, which reads the clock once
  more after a pass that ran to its end.
\<close>

definition allDevices :: "world \<Rightarrow> device list" where
  "allDevices w = findRecordsByFilter (rows w) (\<lambda>d. True) by_activity_used_created 500 0"

definition cleanup_job :: "platform \<Rightarrow> string \<Rightarrow> bool \<Rightarrow> world \<Rightarrow> outcome \<times> world" where
  "cleanup_job P pre stats w =
     (if length (allDevices w) = 0 then (Completed, w)
      else case group_devices (allDevices w) [] of
             Inl e \<Rightarrow> (Caught e, w)
           | Inr fingerprintGroups \<Rightarrow>
               (case process_groups P pre (for_in fingerprintGroups) w of
                  Inl (e, w') \<Rightarrow> (Caught e, w')
                | Inr w' \<Rightarrow> (Completed, if stats then ticked w' else w')))"

definition device_cleanup :: "platform \<Rightarrow> world \<Rightarrow> outcome \<times> world" where
  "device_cleanup P w = cleanup_job P [] True w"

definition test_device_cleanup :: "platform \<Rightarrow> world \<Rightarrow> outcome \<times> world" where
  "test_device_cleanup P w = cleanup_job P ''TEST: '' False w"

section \<open>The two-minute test sweep: \<^verbatim>\<open>simple_test\<close>\<close>

text \<open>\<^verbatim>\<open>a.get("last_activity") || a.get("created") || 0\<close>, as a date.\<close>

definition activity_simple :: "device \<Rightarrow> int" where
  "activity_simple d =
     (case last_activity d of Some t \<Rightarrow> t
      | None \<Rightarrow> (case created d of Some t \<Rightarrow> t | None \<Rightarrow> 0))"

definition sort_by_activity_simple :: "device list \<Rightarrow> device list" where
  "sort_by_activity_simple deviceGroup = sort_key (\<lambda>d. - activity_simple d) deviceGroup"

definition log_out :: "int \<Rightarrow> device \<Rightarrow> device" where
  "log_out t d = d\<lparr>active := False, session_status := ''logged_out'', last_activity := Some t\<rparr>"

text \<open>
  The deactivation loop of \<^verbatim>\<open>simple_test\<close>; the loop over \<^verbatim>\<open>devicesToDeactivate\<close> of the
  creation hooks has the same body.
\<close>

fun deactivate_others :: "platform \<Rightarrow> device list \<Rightarrow> world \<Rightarrow> attempt" where
  "deactivate_others P [] w = Inr w"
| "deactivate_others P (d # ds) w =
     (let t = reading P w; w1 = ticked w
      in case saveRecord P (log_out t d) w1 of
           Inl e \<Rightarrow> Inl e
         | Inr w2 \<Rightarrow> deactivate_others P ds w2)"

fun check_duplicates :: "platform \<Rightarrow> groups \<Rightarrow> world \<Rightarrow> attempt" where
  "check_duplicates P [] w = Inr w"
| "check_duplicates P ((fp, deviceGroup) # gs) w =
     (if length deviceGroup > 1
      then case deactivate_others P (tl (sort_by_activity_simple deviceGroup)) w of
             Inl e \<Rightarrow> Inl e
           | Inr w' \<Rightarrow> check_duplicates P gs w'
      else check_duplicates P gs w)"

definition devices_found :: "world \<Rightarrow> device list" where
  "devices_found w = findRecordsByFilter (rows w) (\<lambda>d. True) unsorted 10 0"

definition simple_test :: "platform \<Rightarrow> world \<Rightarrow> outcome \<times> world" where
  "simple_test P w =
     (if length (devices_found w) = 0 then (Completed, w)
      else case group_devices (devices_found w) [] of
             Inl e \<Rightarrow> (Caught e, w)
           | Inr fingerprintMap \<Rightarrow>
               (case check_duplicates P (for_in fingerprintMap) w of
                  Inl (e, w') \<Rightarrow> (Caught e, w')
                | Inr w' \<Rightarrow> (Completed, w')))"

section \<open>The creation hooks\<close>

text \<open>
  \<^verbatim>\<open>onRecordAfterCreateSuccess\<close> and \<^verbatim>\<open>onRecordAfterCreateRequest\<close> have the same body.
  \<^verbatim>\<open>device.get("last_activity") || device.get("last_used") || device.get("created")\<close>
  has no date when all three are unset; \<^verbatim>\<open>new Date\<close> of it is then invalid and compares
  false with every date.
\<close>

definition deviceActivity :: "device \<Rightarrow> int option" where
  "deviceActivity d =
     (case last_activity d of Some t \<Rightarrow> Some t
      | None \<Rightarrow> (case last_used d of Some t \<Rightarrow> Some t | None \<Rightarrow> created d))"

fun find_primary :: "device list \<Rightarrow> device \<times> int \<Rightarrow> device \<times> int" where
  "find_primary [] (primaryDevice, primaryActivity) = (primaryDevice, primaryActivity)"
| "find_primary (d # ds) (primaryDevice, primaryActivity) =
     (case deviceActivity d of
        None \<Rightarrow> find_primary ds (primaryDevice, primaryActivity)
      | Some t \<Rightarrow> if t > primaryActivity then find_primary ds (d, t)
                  else find_primary ds (primaryDevice, primaryActivity))"

definition merge_user :: "string option \<Rightarrow> int \<Rightarrow> int \<Rightarrow> device \<Rightarrow> device" where
  "merge_user newUserId t1 t2 d =
     d\<lparr>user_id := newUserId,
       current_user_id := newUserId,
       last_activity := Some t1,
       active := True,
       session_status := ''active'',
       current_session_start := Some t2\<rparr>"

definition start_session :: "string option \<Rightarrow> int \<Rightarrow> int \<Rightarrow> device \<Rightarrow> device" where
  "start_session newUserId t1 t2 d =
     d\<lparr>current_user_id := newUserId,
       session_status := ''active'',
       current_session_start := Some t1,
       last_activity := Some t2\<rparr>"

text \<open>The \<^verbatim>\<open>if\<close>/\<^verbatim>\<open>else\<close> on \<^verbatim>\<open>primaryDevice.getId() !== newDevice.getId()\<close>.\<close>

definition settle_primary :: "platform \<Rightarrow> device \<Rightarrow> device \<Rightarrow> world \<Rightarrow> attempt" where
  "settle_primary P newDevice primaryDevice w =
     (let newUserId = user_id newDevice;
          t1 = reading P w; w1 = ticked w;
          t2 = reading P w1; w2 = ticked w1
      in if ident primaryDevice \<noteq> ident newDevice
         then case saveRecord P (merge_user newUserId t1 t2 primaryDevice) w2 of
                Inl e \<Rightarrow> Inl e
              | Inr w3 \<Rightarrow> deleteRecord P newDevice w3
         else saveRecord P (start_session newUserId t1 t2 newDevice) w2)"

text \<open>
  \<^verbatim>\<open>newDevice.get("last_used") || newDevice.get("created") || new Date()\<close>: the clock
  is read only when both fields are unset.
\<close>

definition primaryActivity :: "platform \<Rightarrow> device \<Rightarrow> world \<Rightarrow> int \<times> world" where
  "primaryActivity P newDevice w =
     (case last_used newDevice of Some t \<Rightarrow> (t, w)
      | None \<Rightarrow> (case created newDevice of Some t \<Rightarrow> (t, w)
         | None \<Rightarrow> (reading P w, ticked w)))"

definition primaryDevice :: "platform \<Rightarrow> device \<Rightarrow> device list \<Rightarrow> world \<Rightarrow> device" where
  "primaryDevice P newDevice existing w =
     fst (find_primary existing (newDevice, fst (primaryActivity P newDevice w)))"

definition cleanup_duplicates :: "platform \<Rightarrow> device \<Rightarrow> device list \<Rightarrow> world \<Rightarrow> attempt" where
  "cleanup_duplicates P newDevice existing w =
     (case settle_primary P newDevice (primaryDevice P newDevice existing w)
             (snd (primaryActivity P newDevice w)) of
        Inl e \<Rightarrow> Inl e
      | Inr w1 \<Rightarrow>
          deactivate_others P
            (filter (\<lambda>d. ident d \<noteq> ident (primaryDevice P newDevice existing w)) existing) w1)"

text \<open>The filter \<^verbatim>\<open>device_fingerprint = {:fingerprint} && id != {:newId}\<close>.\<close>

definition same_fingerprint :: "device \<Rightarrow> device \<Rightarrow> bool" where
  "same_fingerprint newDevice d =
     (device_fingerprint d = device_fingerprint newDevice \<and> ident d \<noteq> ident newDevice)"

definition existingDevices :: "device \<Rightarrow> world \<Rightarrow> device list" where
  "existingDevices newDevice w =
     findRecordsByFilter (rows w) (same_fingerprint newDevice) by_activity_used 50 0"

definition device_hook :: "platform \<Rightarrow> device \<Rightarrow> world \<Rightarrow> outcome \<times> world" where
  "device_hook P newDevice w =
     (if \<not> truthy (device_fingerprint newDevice) then (Completed, w)
      else if length (existingDevices newDevice w) = 0 then (Completed, w)
      else case cleanup_duplicates P newDevice (existingDevices newDevice w) w of
             Inl (e, w') \<Rightarrow> (Caught e, w')
           | Inr w' \<Rightarrow> (Completed, w'))"

definition onRecordAfterCreateSuccess :: "platform \<Rightarrow> device \<Rightarrow> world \<Rightarrow> outcome \<times> world" where
  "onRecordAfterCreateSuccess P newDevice w = device_hook P newDevice w"

definition onRecordAfterCreateRequest :: "platform \<Rightarrow> device \<Rightarrow> world \<Rightarrow> outcome \<times> world" where
  "onRecordAfterCreateRequest P newDevice w = device_hook P newDevice w"

section \<open>The monthly archival: \<^verbatim>\<open>monthly_cleanup\<close>\<close>

text \<open>
  \<^verbatim>\<open>ninetyDaysAgo.setDate(ninetyDaysAgo.getDate() - 90)\<close>: ninety calendar days, taken
  as ninety times twenty-four hours.
\<close>

definition ninety_days :: int where
  "ninety_days = 90 * 24 * 60 * 60 * 1000"

definition archiveNote :: "platform \<Rightarrow> int \<Rightarrow> string" where
  "archiveNote P t = ''Archived by monthly cleanup on '' @ toISOString P t @ '' (90+ days inactive)''"

definition archive :: "platform \<Rightarrow> int \<Rightarrow> device \<Rightarrow> device" where
  "archive P t d =
     d\<lparr>device_notes := append_note (device_notes d) (archiveNote P t),
       session_status := ''archived''\<rparr>"

text \<open>
  The loop with its own \<^verbatim>\<open>try\<close>/\<^verbatim>\<open>catch\<close> around each device: a refused save is
  logged with the device's id and the loop goes on. The result carries the ids logged.
\<close>

fun archive_devices :: "platform \<Rightarrow> device list \<Rightarrow> world \<Rightarrow> string list \<times> world" where
  "archive_devices P [] w = ([], w)"
| "archive_devices P (d # ds) w =
     (let t = reading P w; w1 = ticked w
      in case saveRecord P (archive P t d) w1 of
           Inl (e, w2) \<Rightarrow> (let (failed, w3) = archive_devices P ds w2 in (ident d # failed, w3))
         | Inr w2 \<Rightarrow> archive_devices P ds w2)"

text \<open>The filter \<^verbatim>\<open>active = false && last_activity < {:cutoff}\<close>; an unset date is below every date.\<close>

definition oldDevices :: "int \<Rightarrow> world \<Rightarrow> device list" where
  "oldDevices cutoff w =
     findRecordsByFilter (rows w) (\<lambda>d. \<not> active d \<and> last_activity d < Some cutoff) unsorted 100 0"

definition monthly_cleanup :: "platform \<Rightarrow> world \<Rightarrow> string list \<times> world" where
  "monthly_cleanup P w =
     (let cutoff = reading P w - ninety_days; w1 = ticked w
      in if length (oldDevices cutoff w1) = 0 then ([], w1)
         else archive_devices P (oldDevices cutoff w1) w1)"

section \<open>Reading the result of a pass\<close>

text \<open>The table a pass leaves behind, whether it ran to its end or stopped at an exception.\<close>

definition final :: "attempt \<Rightarrow> world" where
  "final a = (case a of Inl (e, w) \<Rightarrow> w | Inr w \<Rightarrow> w)"

text \<open>
  The groups that the grouping loop has built when it ends without a throw: the loop
  without its throw.
\<close>

fun grouped :: "device list \<Rightarrow> groups \<Rightarrow> groups" where
  "grouped [] gs = gs"
| "grouped (d # ds) gs =
     (case device_fingerprint d of
        None \<Rightarrow> grouped ds gs
      | Some fp \<Rightarrow> if fp = [] then grouped ds gs else grouped ds (push_device fp d gs))"

text \<open>The devices that sit in some group.\<close>

definition members :: "groups \<Rightarrow> device set" where
  "members gs = (\<Union>g \<in> set gs. set (snd g))"

section \<open>The effective activity timestamp of the specification\<close>

text \<open>
  Written after the specification's words, to be compared with the keys the passes
  compute: \<^verbatim>\<open>lastActivity\<close>, else \<^verbatim>\<open>lastUsed\<close>, else \<^verbatim>\<open>created\<close>, the first available
  value in that order.
\<close>

definition spec_effective_timestamp :: "device \<Rightarrow> int option" where
  "spec_effective_timestamp d =
     (if last_activity d \<noteq> None then last_activity d
      else if last_used d \<noteq> None then last_used d
      else created d)"

section \<open>The saves a pass sets out to make\<close>

text \<open>
  Read off the loops above, to state what they write: the records that a pass hands to
  \<^verbatim>\<open>saveRecord\<close>, in the order of the calls. They depend on the query result and the
  clock alone, since a pass never reads the table again. \<open>k\<close> is the number of clock
  readings taken before. That the loops make exactly these saves is proved below.
\<close>

fun planned_duplicates :: "platform \<Rightarrow> string \<Rightarrow> device list \<Rightarrow> nat \<Rightarrow> device list" where
  "planned_duplicates P pre [] k = []"
| "planned_duplicates P pre (d # ds) k =
     deactivate P pre (clock P k) (clock P (Suc k)) d # planned_duplicates P pre ds (Suc (Suc k))"

definition planned_group :: "platform \<Rightarrow> string \<Rightarrow> device list \<Rightarrow> nat \<Rightarrow> device list" where
  "planned_group P pre devices k =
     (case sort_by_activity devices of
        [] \<Rightarrow> []
      | p # dups \<Rightarrow> keep_primary (clock P k) p # planned_duplicates P pre dups (Suc k))"

fun planned_groups :: "platform \<Rightarrow> string \<Rightarrow> groups \<Rightarrow> nat \<Rightarrow> device list" where
  "planned_groups P pre [] k = []"
| "planned_groups P pre ((fp, devices) # gs) k =
     (if length devices \<le> 1 then planned_groups P pre gs k
      else planned_group P pre devices k
           @ planned_groups P pre gs (k + (2 * length devices - 1)))"

definition planned_saves :: "platform \<Rightarrow> string \<Rightarrow> world \<Rightarrow> device list" where
  "planned_saves P pre w =
     (case group_devices (allDevices w) [] of
        Inl e \<Rightarrow> []
      | Inr fingerprintGroups \<Rightarrow> planned_groups P pre (for_in fingerprintGroups) (tick w))"

fun planned_archive :: "platform \<Rightarrow> device list \<Rightarrow> nat \<Rightarrow> device list" where
  "planned_archive P [] k = []"
| "planned_archive P (d # ds) k = archive P (clock P k) d # planned_archive P ds (Suc k)"

definition planned_archives :: "platform \<Rightarrow> world \<Rightarrow> device list" where
  "planned_archives P w =
     planned_archive P (oldDevices (clock P (tick w) - ninety_days) w) (Suc (tick w))"

text \<open>The table after the listed saves.\<close>

definition saved :: "device list \<Rightarrow> device list \<Rightarrow> device list" where
  "saved xs table = foldl (\<lambda>rs x. upsert x rs) table xs"

section \<open>Example tables\<close>

text \<open>A device row with the given id, fingerprint, active flag, user and dates.\<close>

definition dev ::
  "string \<Rightarrow> string option \<Rightarrow> bool \<Rightarrow> string option \<Rightarrow> int option \<Rightarrow> int option \<Rightarrow> int option \<Rightarrow> device" where
  "dev i fp a u la lu cr =
     \<lparr>ident = i, device_fingerprint = fp, user_id = u, current_user_id = u, active = a,
      session_status = (if a then ''active'' else ''logged_out''),
      last_activity = la, last_used = lu, created = cr,
      current_session_start = None, device_notes = None\<rparr>"

text \<open>A store that accepts every write; the clock advances by a millisecond per reading.\<close>

definition ticking :: platform where
  "ticking = \<lparr>clock = (\<lambda>k. 1000 + int k), toISOString = (\<lambda>t. ''<now>''),
     save_fails = (\<lambda>d. False), delete_fails = (\<lambda>d. False)\<rparr>"

text \<open>Two devices with fingerprint \<open>F1\<close> and one device without a fingerprint.\<close>

definition pair_and_stray :: world where
  "pair_and_stray =
     \<lparr>rows = [dev ''a'' (Some ''F1'') True (Some ''u1'') (Some 10) (Some 1) (Some 0),
              dev ''b'' (Some ''F1'') True (Some ''u2'') (Some 5) (Some 7) (Some 0),
              dev ''c'' None True (Some ''u3'') None None None],
      tick = 0\<rparr>"

text \<open>Eleven devices; the eleventh has the fingerprint of the first.\<close>

definition eleven :: world where
  "eleven =
     \<lparr>rows = map (\<lambda>c. dev [c] (Some (if c = CHR ''k'' then ''Fa'' else [CHR ''F'', c]))
                     True (Some ''u'') None None (Some 1)) ''abcdefghijk'',
      tick = 0\<rparr>"

text \<open>
  An active device and an archived one with the same fingerprint, and an archived device
  that is alone with its fingerprint.
\<close>

definition archived_pair :: world where
  "archived_pair =
     \<lparr>rows = [dev ''x'' (Some ''F2'') True (Some ''u1'') (Some 10) None (Some 0),
              (dev ''y'' (Some ''F2'') False None (Some 1) None (Some 0))\<lparr>session_status := ''archived''\<rparr>,
              (dev ''z'' (Some ''F3'') False None (Some 1) None (Some 0))\<lparr>session_status := ''archived''\<rparr>],
      tick = 0\<rparr>"

text \<open>
  Two groups of two devices in which the archived device has the latest activity; the
  first archived device has a current user, the second has none.
\<close>

definition archived_first :: world where
  "archived_first =
     \<lparr>rows = [(dev ''p1'' (Some ''F6'') False (Some ''u1'') (Some 10) None (Some 0))\<lparr>session_status := ''archived''\<rparr>,
              dev ''q1'' (Some ''F6'') True (Some ''u2'') (Some 5) None (Some 0),
              (dev ''p2'' (Some ''F7'') False None (Some 9) None (Some 0))\<lparr>session_status := ''archived''\<rparr>,
              dev ''q2'' (Some ''F7'') True (Some ''u3'') (Some 4) None (Some 0)],
      tick = 0\<rparr>"

text \<open>
  Two devices with one fingerprint and the same \<open>last_activity\<close>: the first is inactive
  and has the greater id, the second is active and has the smaller id.
\<close>

definition tie_pair :: world where
  "tie_pair =
     \<lparr>rows = [dev ''b'' (Some ''F4'') False None (Some 10) (Some 5) (Some 0),
              dev ''a'' (Some ''F4'') True (Some ''u1'') (Some 10) None (Some 0)],
      tick = 0\<rparr>"

text \<open>
  Two devices with one fingerprint and no \<open>last_activity\<close>: the first was used at 100
  and created at 1, the second was never used and was created at 50.
\<close>

definition used_pair :: world where
  "used_pair =
     \<lparr>rows = [dev ''x'' (Some ''F5'') True (Some ''u1'') None (Some 100) (Some 1),
              dev ''y'' (Some ''F5'') True (Some ''u2'') None None (Some 50)],
      tick = 0\<rparr>"

text \<open>Two groups of two devices, and a store that refuses to save the device \<open>a2\<close>.\<close>

definition two_groups :: world where
  "two_groups =
     \<lparr>rows = [dev ''a1'' (Some ''G1'') True (Some ''u1'') (Some 10) None (Some 0),
              dev ''a2'' (Some ''G1'') True (Some ''u2'') (Some 5) None (Some 0),
              dev ''b1'' (Some ''G2'') True (Some ''u3'') (Some 8) None (Some 0),
              dev ''b2'' (Some ''G2'') True (Some ''u4'') (Some 3) None (Some 0)],
      tick = 0\<rparr>"

definition refusing :: platform where
  "refusing = ticking\<lparr>save_fails := (\<lambda>d. ident d = ''a2'')\<rparr>"


text \<open>Two devices whose fingerprint is the name of a property that every object inherits.\<close>

definition inherited_pair :: world where
  "inherited_pair =
     \<lparr>rows = [dev ''a'' (Some ''constructor'') True (Some ''u1'') (Some 10) None (Some 0),
              dev ''b'' (Some ''constructor'') True (Some ''u2'') (Some 5) None (Some 0)],
      tick = 0\<rparr>"



section \<open>What a pass leaves untouched\<close>

lemma final_simps [simp]: "final (Inl (e, w)) = w" "final (Inr w) = w"
  by (simp_all add: final_def)

lemma rows_ticked [simp]: "rows (ticked w) = rows w"
  by (simp add: ticked_def)

lemma ident_transitions [simp]:
  "ident (keep_primary t d) = ident d"
  "ident (deactivate P pre t1 t2 d) = ident d"
  "ident (log_out t d) = ident d"
  "ident (merge_user u t1 t2 d) = ident d"
  "ident (start_session u t1 t2 d) = ident d"
  "ident (archive P t d) = ident d"
  by (simp_all add: keep_primary_def deactivate_def log_out_def merge_user_def start_session_def archive_def)

lemma upsert_keeps: "r \<in> set rs \<Longrightarrow> ident r \<noteq> ident d \<Longrightarrow> r \<in> set (upsert d rs)"
  by (auto simp: upsert_def)

lemma saveRecord_keeps:
  "r \<in> set (rows w) \<Longrightarrow> ident r \<noteq> ident d \<Longrightarrow> r \<in> set (rows (final (saveRecord P d w)))"
  by (simp add: saveRecord_def upsert_keeps)

lemma saveRecord_cases:
  obtains (refused) "save_fails P d" "saveRecord P d w = Inl (StoreWriteFailure, w)"
        | (saved) "\<not> save_fails P d" "saveRecord P d w = Inr (w\<lparr>rows := upsert d (rows w)\<rparr>)"
  by (cases "save_fails P d") (simp_all add: saveRecord_def)

lemma deleteRecord_keeps:
  "r \<in> set (rows w) \<Longrightarrow> ident r \<noteq> ident d \<Longrightarrow> r \<in> set (rows (final (deleteRecord P d w)))"
  by (simp add: deleteRecord_def)

lemma deactivate_duplicates_keeps:
  "r \<in> set (rows w) \<Longrightarrow> ident r \<notin> ident ` set ds \<Longrightarrow>
   r \<in> set (rows (final (deactivate_duplicates P pre ds w)))"
proof (induction ds arbitrary: w)
  case Nil
  then show ?case by simp
next
  case (Cons d ds)
  let ?d = "deactivate P pre (reading P w) (reading P (ticked w)) d"
  let ?w = "ticked (ticked w)"
  show ?case
  proof (cases rule: saveRecord_cases [of P ?d ?w])
    case refused
    with Cons.prems show ?thesis by (simp add: Let_def)
  next
    case saved
    from Cons.prems have "r \<in> set (rows (?w\<lparr>rows := upsert ?d (rows ?w)\<rparr>))"
      by (simp add: upsert_keeps)
    moreover from Cons.prems have "ident r \<notin> ident ` set ds" by simp
    ultimately show ?thesis using saved Cons.IH by (simp add: Let_def)
  qed
qed

lemma deactivate_others_keeps:
  "r \<in> set (rows w) \<Longrightarrow> ident r \<notin> ident ` set ds \<Longrightarrow>
   r \<in> set (rows (final (deactivate_others P ds w)))"
proof (induction ds arbitrary: w)
  case Nil
  then show ?case by simp
next
  case (Cons d ds)
  let ?d = "log_out (reading P w) d"
  let ?w = "ticked w"
  show ?case
  proof (cases rule: saveRecord_cases [of P ?d ?w])
    case refused
    with Cons.prems show ?thesis by (simp add: Let_def)
  next
    case saved
    from Cons.prems have "r \<in> set (rows (?w\<lparr>rows := upsert ?d (rows ?w)\<rparr>))"
      by (simp add: upsert_keeps)
    moreover from Cons.prems have "ident r \<notin> ident ` set ds" by simp
    ultimately show ?thesis using saved Cons.IH by (simp add: Let_def)
  qed
qed

lemma process_duplicates_keeps:
  assumes "r \<in> set (rows w)" and "ident r \<notin> ident ` set devices"
  shows "r \<in> set (rows (final (process_duplicates P pre devices w)))"
proof (cases "sort_by_activity devices")
  case Nil
  with assms show ?thesis by (simp add: process_duplicates_def)
next
  case (Cons p dups)
  then have "set devices = insert p (set dups)"
    by (metis list.simps(15) set_sort sort_by_activity_def)
  with assms have p: "ident r \<noteq> ident p" and dups: "ident r \<notin> ident ` set dups"
    by auto
  let ?p = "keep_primary (reading P w) p"
  show ?thesis
  proof (cases rule: saveRecord_cases [of P ?p "ticked w"])
    case refused
    with assms Cons show ?thesis by (simp add: process_duplicates_def Let_def)
  next
    case saved
    from assms p have "r \<in> set (rows (ticked w\<lparr>rows := upsert ?p (rows (ticked w))\<rparr>))"
      by (simp add: upsert_keeps)
    from deactivate_duplicates_keeps [OF this dups] saved Cons show ?thesis
      by (simp add: process_duplicates_def Let_def)
  qed
qed

lemma process_groups_keeps:
  "r \<in> set (rows w) \<Longrightarrow>
   (\<And>fp ds. (fp, ds) \<in> set gs \<Longrightarrow> 1 < length ds \<Longrightarrow> ident r \<notin> ident ` set ds) \<Longrightarrow>
   r \<in> set (rows (final (process_groups P pre gs w)))"
proof (induction gs arbitrary: w)
  case Nil
  then show ?case by simp
next
  case (Cons g gs)
  obtain fp devices where g: "g = (fp, devices)" by (cases g)
  have rest: "ident r \<notin> ident ` set ds" if "(fp, ds) \<in> set gs" "1 < length ds" for fp ds
    using Cons.prems(2) [of fp ds] that by simp
  show ?case
  proof (cases "length devices \<le> 1")
    case True
    with Cons.IH [OF Cons.prems(1) rest] show ?thesis by (simp add: g)
  next
    case False
    with Cons.prems(2) [of fp devices] have dev: "ident r \<notin> ident ` set devices"
      by (simp add: g)
    show ?thesis
    proof (cases "process_duplicates P pre devices w")
      case (Inl a)
      with process_duplicates_keeps [OF Cons.prems(1) dev, of P pre] False show ?thesis
        by (simp add: g)
    next
      case (Inr w')
      with process_duplicates_keeps [OF Cons.prems(1) dev, of P pre] have "r \<in> set (rows w')"
        by simp
      from Cons.IH [OF this rest] Inr False show ?thesis by (simp add: g)
    qed
  qed
qed

lemma check_duplicates_keeps:
  "r \<in> set (rows w) \<Longrightarrow>
   (\<And>fp ds. (fp, ds) \<in> set gs \<Longrightarrow> 1 < length ds \<Longrightarrow> ident r \<notin> ident ` set ds) \<Longrightarrow>
   r \<in> set (rows (final (check_duplicates P gs w)))"
proof (induction gs arbitrary: w)
  case Nil
  then show ?case by simp
next
  case (Cons g gs)
  obtain fp devices where g: "g = (fp, devices)" by (cases g)
  have rest: "ident r \<notin> ident ` set ds" if "(fp, ds) \<in> set gs" "1 < length ds" for fp ds
    using Cons.prems(2) [of fp ds] that by simp
  have sub: "set (tl (sort_by_activity_simple devices)) \<subseteq> set devices"
    by (metis list.set_sel(2) set_sort sort_by_activity_simple_def subsetI tl_Nil)
  show ?case
  proof (cases "length devices > 1")
    case False
    with Cons.IH [OF Cons.prems(1) rest] show ?thesis by (simp add: g)
  next
    case True
    with Cons.prems(2) [of fp devices] have "ident r \<notin> ident ` set devices"
      by (simp add: g)
    with sub have tl: "ident r \<notin> ident ` set (tl (sort_by_activity_simple devices))"
      by auto
    show ?thesis
    proof (cases "deactivate_others P (tl (sort_by_activity_simple devices)) w")
      case (Inl a)
      with deactivate_others_keeps [OF Cons.prems(1) tl, of P] True show ?thesis
        by (simp add: g)
    next
      case (Inr w')
      with deactivate_others_keeps [OF Cons.prems(1) tl, of P] have "r \<in> set (rows w')"
        by simp
      from Cons.IH [OF this rest] Inr True show ?thesis by (simp add: g)
    qed
  qed
qed

lemma members_Nil [simp]: "members [] = {}"
  by (simp add: members_def)

lemma members_Cons [simp]: "members ((k, ds) # gs) = set ds \<union> members gs"
  by (simp add: members_def)

lemma members_push_device: "members (push_device fp d gs) = insert d (members gs)"
  by (induction fp d gs rule: push_device.induct) auto

lemma members_grouped:
  "members (grouped xs gs) = members gs \<union> {d \<in> set xs. truthy (device_fingerprint d)}"
  by (induction xs arbitrary: gs) (auto simp: members_push_device truthy_def split: option.splits)

lemma set_findRecordsByFilter:
  assumes "\<And>xs. set (srt xs) = set xs"
  shows "set (findRecordsByFilter table flt srt lim off) \<subseteq> {d \<in> set table. flt d}"
proof -
  have "set (take lim (drop off (srt (filter flt table)))) \<subseteq> set (srt (filter flt table))"
    by (meson set_drop_subset set_take_subset subset_trans)
  with assms show ?thesis by (auto simp: findRecordsByFilter_def)
qed

lemma set_sort_desc [simp]: "set (sort_desc f xs) = set xs"
  by (simp add: sort_desc_def)

lemma set_sorts [simp]:
  "set (by_activity_used_created xs) = set xs"
  "set (by_activity_used xs) = set xs"
  "set (unsorted xs) = set xs"
  by (simp_all add: by_activity_used_created_def by_activity_used_def unsorted_def)

lemma distinct_sort_desc [simp]: "distinct (sort_desc f xs) = distinct xs"
  by (simp add: sort_desc_def)

lemma distinct_sorts [simp]:
  "distinct (by_activity_used_created xs) = distinct xs"
  "distinct (by_activity_used xs) = distinct xs"
  "distinct (unsorted xs) = distinct xs"
  by (simp_all add: by_activity_used_created_def by_activity_used_def unsorted_def)

lemma beyond_limit:
  assumes "distinct (map ident xs)" and "r \<in> set (drop lim xs)"
  shows "ident r \<notin> ident ` set (take lim xs)"
proof -
  from assms(1) have "distinct (map ident (take lim xs) @ map ident (drop lim xs))"
    by (metis append_take_drop_id map_append)
  with assms(2) show ?thesis by auto
qed

lemma distinct_ident_sort_desc: "distinct (map ident (sort_desc f xs)) = distinct (map ident xs)"
  by (simp add: sort_desc_def rev_map [symmetric] distinct_map)


lemma find_primary_in:
  "fst (find_primary ds (p, pa)) \<in> insert p (set ds)"
  by (induction ds arbitrary: p pa) (auto split: option.splits)

lemma settle_primary_keeps:
  assumes "r \<in> set (rows w)" and "ident r \<noteq> ident n" and "ident r \<noteq> ident p"
  shows "r \<in> set (rows (final (settle_primary P n p w)))"
proof (cases "ident p \<noteq> ident n")
  case True
  let ?p = "merge_user (user_id n) (reading P w) (reading P (ticked w)) p"
  let ?w = "ticked (ticked w)"
  show ?thesis
  proof (cases rule: saveRecord_cases [of P ?p ?w])
    case refused
    with assms True show ?thesis by (simp add: settle_primary_def Let_def)
  next
    case saved
    from assms have "r \<in> set (rows (?w\<lparr>rows := upsert ?p (rows ?w)\<rparr>))"
      by (simp add: upsert_keeps)
    from deleteRecord_keeps [OF this assms(2)] saved True show ?thesis
      by (simp add: settle_primary_def Let_def)
  qed
next
  case False
  with assms saveRecord_keeps [of r "ticked (ticked w)"] show ?thesis
    by (simp add: settle_primary_def Let_def)
qed

lemma rows_primaryActivity [simp]: "rows (snd (primaryActivity P n w)) = rows w"
  by (simp add: primaryActivity_def split: option.splits)

lemma primaryDevice_in: "primaryDevice P n existing w \<in> insert n (set existing)"
  unfolding primaryDevice_def by (rule find_primary_in)

lemma cleanup_duplicates_keeps:
  assumes "r \<in> set (rows w)" and "ident r \<noteq> ident n" and "ident r \<notin> ident ` set existing"
  shows "r \<in> set (rows (final (cleanup_duplicates P n existing w)))"
proof -
  let ?w0 = "snd (primaryActivity P n w)"
  let ?p = "primaryDevice P n existing w"
  from assms have r0: "r \<in> set (rows ?w0)" by simp
  from primaryDevice_in [of P n existing w] assms have p: "ident r \<noteq> ident ?p"
    by auto
  from assms have others: "ident r \<notin> ident ` set (filter (\<lambda>d. ident d \<noteq> ident ?p) existing)"
    by auto
  show ?thesis
  proof (cases "settle_primary P n ?p ?w0")
    case (Inl a)
    with settle_primary_keeps [OF r0 assms(2) p, of P] show ?thesis
      by (simp add: cleanup_duplicates_def)
  next
    case (Inr w1)
    with settle_primary_keeps [OF r0 assms(2) p, of P] have "r \<in> set (rows w1)"
      by simp
    from deactivate_others_keeps [OF this others] Inr show ?thesis
      by (simp add: cleanup_duplicates_def)
  qed
qed

lemma inherited_names_nonempty: "[] \<notin> set inherited_names"
  by (simp add: inherited_names_def)

lemma group_devices_eq:
  "group_devices xs gs =
     (if \<exists>d \<in> set xs. \<exists>fp. device_fingerprint d = Some fp \<and> fp \<in> set inherited_names
      then Inl TypeError else Inr (grouped xs gs))"
  using inherited_names_nonempty
  by (induction xs arbitrary: gs) (auto split: option.splits)

lemma group_devices_Inr: "group_devices xs gs = Inr gs' \<Longrightarrow> gs' = grouped xs gs"
  by (simp add: group_devices_eq split: if_splits)

lemma set_for_in [simp]: "set (for_in gs) = set gs"
  by (auto simp: for_in_def)

lemma mset_for_in [simp]: "mset (for_in gs) = mset gs"
  by (simp add: for_in_def)

lemma rows_cleanup_job:
  "rows (snd (cleanup_job P pre stats w)) =
     (if isl (group_devices (allDevices w) []) then rows w
      else rows (final (process_groups P pre (for_in (grouped (allDevices w) [])) w)))"
proof (cases "allDevices w = []")
  case True
  then show ?thesis by (simp add: cleanup_job_def for_in_def)
next
  case False
  then show ?thesis
    by (auto simp: cleanup_job_def group_devices_eq ticked_def split: sum.splits)
qed

lemma rows_simple_test:
  "rows (snd (simple_test P w)) =
     (if isl (group_devices (devices_found w) []) then rows w
      else rows (final (check_duplicates P (for_in (grouped (devices_found w) [])) w)))"
proof (cases "devices_found w = []")
  case True
  then show ?thesis by (simp add: simple_test_def for_in_def)
next
  case False
  then show ?thesis
    by (auto simp: simple_test_def group_devices_eq split: sum.splits)
qed

lemma snd_device_hook:
  "snd (device_hook P n w) =
     (if \<not> truthy (device_fingerprint n) \<or> length (existingDevices n w) = 0 then w
      else final (cleanup_duplicates P n (existingDevices n w) w))"
  by (simp add: device_hook_def split: sum.splits)

lemma in_members: "(fp, ds) \<in> set gs \<Longrightarrow> d \<in> set ds \<Longrightarrow> d \<in> members gs"
  by (force simp: members_def)

lemma cleanup_job_keeps_single:
  assumes "r \<in> set (rows w)"
    and "\<And>fp ds. (fp, ds) \<in> set (grouped (allDevices w) []) \<Longrightarrow> 1 < length ds \<Longrightarrow>
           ident r \<notin> ident ` set ds"
  shows "r \<in> set (rows (snd (cleanup_job P pre stats w)))"
  using process_groups_keeps [OF assms(1), of "for_in (grouped (allDevices w) [])" P pre] assms
  by (simp add: rows_cleanup_job)

lemma simple_test_keeps_single:
  assumes "r \<in> set (rows w)"
    and "\<And>fp ds. (fp, ds) \<in> set (grouped (devices_found w) []) \<Longrightarrow> 1 < length ds \<Longrightarrow>
           ident r \<notin> ident ` set ds"
  shows "r \<in> set (rows (snd (simple_test P w)))"
  using check_duplicates_keeps [OF assms(1), of "for_in (grouped (devices_found w) [])" P] assms
  by (simp add: rows_simple_test)

lemma cleanup_job_keeps:
  assumes "r \<in> set (rows w)"
    and "\<And>d. d \<in> set (allDevices w) \<Longrightarrow> truthy (device_fingerprint d) \<Longrightarrow> ident d \<noteq> ident r"
  shows "r \<in> set (rows (snd (cleanup_job P pre stats w)))"
proof (rule cleanup_job_keeps_single [OF assms(1)])
  fix fp ds
  assume "(fp, ds) \<in> set (grouped (allDevices w) [])"
  then have "set ds \<subseteq> members (grouped (allDevices w) [])"
    by (auto intro: in_members)
  with assms(2) show "ident r \<notin> ident ` set ds"
    by (force simp: members_grouped)
qed

lemma simple_test_keeps:
  assumes "r \<in> set (rows w)"
    and "\<And>d. d \<in> set (devices_found w) \<Longrightarrow> truthy (device_fingerprint d) \<Longrightarrow> ident d \<noteq> ident r"
  shows "r \<in> set (rows (snd (simple_test P w)))"
proof (rule simple_test_keeps_single [OF assms(1)])
  fix fp ds
  assume "(fp, ds) \<in> set (grouped (devices_found w) [])"
  then have "set ds \<subseteq> members (grouped (devices_found w) [])"
    by (auto intro: in_members)
  with assms(2) show "ident r \<notin> ident ` set ds"
    by (force simp: members_grouped)
qed

lemma device_hook_keeps:
  assumes "r \<in> set (rows w)" and "truthy (device_fingerprint n) \<Longrightarrow> ident r \<noteq> ident n"
    and "ident r \<notin> ident ` set (existingDevices n w)"
  shows "r \<in> set (rows (snd (device_hook P n w)))"
  using assms cleanup_duplicates_keeps [of r w n "existingDevices n w" P]
  by (simp add: snd_device_hook)

lemma same_ident:
  "distinct (map ident xs) \<Longrightarrow> r \<in> set xs \<Longrightarrow> d \<in> set xs \<Longrightarrow> ident d = ident r \<Longrightarrow> d = r"
  by (meson distinct_map inj_onD)

lemma allDevices_subset: "set (allDevices w) \<subseteq> set (rows w)"
  using set_findRecordsByFilter [of by_activity_used_created "rows w" "\<lambda>d. True" 500 0]
  by (auto simp: allDevices_def)

lemma devices_found_subset: "set (devices_found w) \<subseteq> set (rows w)"
  using set_findRecordsByFilter [of unsorted "rows w" "\<lambda>d. True" 10 0]
  by (auto simp: devices_found_def)

lemma existingDevices_subset:
  "set (existingDevices n w) \<subseteq> {d \<in> set (rows w). same_fingerprint n d}"
  using set_findRecordsByFilter [of by_activity_used "rows w" "same_fingerprint n" 50 0]
  by (auto simp: existingDevices_def)


lemma group_devices_skips:
  "\<not> truthy (device_fingerprint r) \<Longrightarrow>
     group_devices (ys @ r # zs) gs = group_devices (ys @ zs) gs"
  by (induction ys arbitrary: gs) (auto simp: truthy_def split: option.splits)

text \<open>
  C9. A record whose fingerprint is empty or absent is put into no group: the grouping
  loop passes over it, so its result is what it is without the record. No
  reconciliation pass (the daily sweep, its test copy, the two-minute test sweep, the
  two creation hooks) changes any of its fields, whatever other records the table
  holds and whichever saves the store refuses. The table has one row per id, and the
  hooks run for a record that is in the table.
\<close>

theorem no_fingerprint_untouched:
  assumes "distinct (map ident (rows w))"
    and "r \<in> set (rows w)"
    and "\<not> truthy (device_fingerprint r)"
    and "newDevice \<in> set (rows w)"
  shows "(\<forall>gs. group_devices xs [] = Inr gs \<longrightarrow> r \<notin> members gs)
       \<and> r \<in> set (rows (snd (device_cleanup P w)))
       \<and> r \<in> set (rows (snd (test_device_cleanup P w)))
       \<and> r \<in> set (rows (snd (simple_test P w)))
       \<and> r \<in> set (rows (snd (onRecordAfterCreateSuccess P newDevice w)))
       \<and> r \<in> set (rows (snd (onRecordAfterCreateRequest P newDevice w)))
       \<and> group_devices (ys @ r # zs) gs0 = group_devices (ys @ zs) gs0"
proof -
  have other: "ident d \<noteq> ident r" if "d \<in> set (rows w)" "truthy (device_fingerprint d)" for d
    using that assms same_ident by blast
  have grouped: "\<forall>gs. group_devices xs [] = Inr gs \<longrightarrow> r \<notin> members gs"
    using assms(3) by (auto dest!: group_devices_Inr simp: members_grouped)
  have sweep: "r \<in> set (rows (snd (cleanup_job P pre stats w)))" for pre stats
    using assms(2) other allDevices_subset by (intro cleanup_job_keeps) auto
  have simple: "r \<in> set (rows (snd (simple_test P w)))"
    using assms(2) other devices_found_subset by (intro simple_test_keeps) auto
  have hook: "r \<in> set (rows (snd (device_hook P newDevice w)))"
  proof (cases "truthy (device_fingerprint newDevice)")
    case False
    with assms(2) show ?thesis by (simp add: snd_device_hook)
  next
    case True
    have "ident d \<noteq> ident r" if "d \<in> set (existingDevices newDevice w)" for d
    proof -
      from that existingDevices_subset [of newDevice w]
      have "d \<in> set (rows w)" "device_fingerprint d = device_fingerprint newDevice"
        by (auto simp: same_fingerprint_def)
      with True other show ?thesis by simp
    qed
    then have "ident r \<notin> ident ` set (existingDevices newDevice w)"
      by force
    moreover from True assms(4) other have "ident r \<noteq> ident newDevice"
      by metis
    ultimately show ?thesis
      using assms(2) by (intro device_hook_keeps) auto
  qed
  from grouped sweep simple hook group_devices_skips [OF assms(3)] show ?thesis
    by (simp add: device_cleanup_def test_device_cleanup_def
        onRecordAfterCreateSuccess_def onRecordAfterCreateRequest_def)
qed

theorem no_fingerprint_untouched_witness:
  "distinct (map ident (rows pair_and_stray))
   \<and> dev ''c'' None True (Some ''u3'') None None None \<in> set (rows pair_and_stray)
   \<and> \<not> truthy (device_fingerprint (dev ''c'' None True (Some ''u3'') None None None))
   \<and> dev ''b'' (Some ''F1'') True (Some ''u2'') (Some 5) (Some 7) (Some 0) \<in> set (rows pair_and_stray)
   \<and> dev ''c'' None True (Some ''u3'') None None None \<in> set (rows (snd (device_cleanup ticking pair_and_stray)))
   \<and> dev ''c'' None True (Some ''u3'') None None None \<in> set (rows (snd (simple_test ticking pair_and_stray)))
   \<and> dev ''c'' None True (Some ''u3'') None None None
        \<in> set (rows (snd (onRecordAfterCreateSuccess ticking
             (dev ''b'' (Some ''F1'') True (Some ''u2'') (Some 5) (Some 7) (Some 0)) pair_and_stray)))"
proof -
  let ?c = "dev ''c'' None True (Some ''u3'') None None None"
  let ?b = "dev ''b'' (Some ''F1'') True (Some ''u2'') (Some 5) (Some 7) (Some 0)"
  have h1: "distinct (map ident (rows pair_and_stray))"
    by (simp add: pair_and_stray_def dev_def)
  have h2: "?c \<in> set (rows pair_and_stray)"
    by (simp add: pair_and_stray_def)
  have h3: "\<not> truthy (device_fingerprint ?c)"
    by (simp add: truthy_def dev_def)
  have h4: "?b \<in> set (rows pair_and_stray)"
    by (simp add: pair_and_stray_def)
  from no_fingerprint_untouched [OF h1 h2 h3 h4, of "[]" ticking] h1 h2 h3 h4
  show ?thesis by simp
qed

lemma distinct_ident_sorts:
  "distinct (map ident (by_activity_used_created xs)) = distinct (map ident xs)"
  "distinct (map ident (by_activity_used xs)) = distinct (map ident xs)"
  "distinct (map ident (unsorted xs)) = distinct (map ident xs)"
  by (simp_all add: by_activity_used_created_def by_activity_used_def unsorted_def
      distinct_ident_sort_desc)

lemma distinct_ident_filter: "distinct (map ident xs) \<Longrightarrow> distinct (map ident (filter p xs))"
  by (simp add: distinct_map_filter)

text \<open>
  C10. Each pass looks at a bounded prefix of the records: the daily sweep at the first
  500 rows in the order of its query, a creation hook at the first 50 rows that share
  the new record's fingerprint, the two-minute test sweep at the first 10 rows of the
  table. Every row beyond the limit is in the table unchanged after the pass, so a
  duplicate there is not reconciled by it. The table has one row per id.
\<close>

theorem passes_see_bounded_prefix:
  assumes "distinct (map ident (rows w))"
  shows "allDevices w = take 500 (by_activity_used_created (rows w))
       \<and> length (allDevices w) \<le> 500
       \<and> (\<forall>r \<in> set (drop 500 (by_activity_used_created (rows w))).
            r \<in> set (rows (snd (device_cleanup P w))))
       \<and> existingDevices newDevice w =
            take 50 (by_activity_used (filter (same_fingerprint newDevice) (rows w)))
       \<and> length (existingDevices newDevice w) \<le> 50
       \<and> (\<forall>r \<in> set (drop 50 (by_activity_used (filter (same_fingerprint newDevice) (rows w)))).
            r \<in> set (rows (snd (onRecordAfterCreateSuccess P newDevice w))))
       \<and> devices_found w = take 10 (rows w)
       \<and> length (devices_found w) \<le> 10
       \<and> (\<forall>r \<in> set (drop 10 (rows w)). r \<in> set (rows (snd (simple_test P w))))"
proof -
  have all: "allDevices w = take 500 (by_activity_used_created (rows w))"
    by (simp add: allDevices_def findRecordsByFilter_def)
  have ex: "existingDevices newDevice w =
      take 50 (by_activity_used (filter (same_fingerprint newDevice) (rows w)))"
    by (simp add: existingDevices_def findRecordsByFilter_def)
  have found: "devices_found w = take 10 (rows w)"
    by (simp add: devices_found_def findRecordsByFilter_def unsorted_def)
  have sweep: "r \<in> set (rows (snd (device_cleanup P w)))"
    if "r \<in> set (drop 500 (by_activity_used_created (rows w)))" for r
  proof -
    from that have "r \<in> set (by_activity_used_created (rows w))"
      by (rule in_set_dropD)
    then have r: "r \<in> set (rows w)" by simp
    from assms have "distinct (map ident (by_activity_used_created (rows w)))"
      by (simp add: distinct_ident_sorts)
    from beyond_limit [OF this that] have "ident r \<notin> ident ` set (allDevices w)"
      by (simp add: all)
    with r show ?thesis
      unfolding device_cleanup_def by (intro cleanup_job_keeps) (auto simp: image_iff)
  qed
  have hook: "r \<in> set (rows (snd (onRecordAfterCreateSuccess P newDevice w)))"
    if "r \<in> set (drop 50 (by_activity_used (filter (same_fingerprint newDevice) (rows w))))" for r
  proof -
    from that have "r \<in> set (by_activity_used (filter (same_fingerprint newDevice) (rows w)))"
      by (rule in_set_dropD)
    then have r: "r \<in> set (rows w)" and new: "ident r \<noteq> ident newDevice"
      by (simp_all add: same_fingerprint_def)
    from assms have "distinct (map ident (by_activity_used (filter (same_fingerprint newDevice) (rows w))))"
      by (simp add: distinct_ident_sorts distinct_ident_filter)
    from beyond_limit [OF this that] have "ident r \<notin> ident ` set (existingDevices newDevice w)"
      by (simp add: ex)
    with r new show ?thesis
      unfolding onRecordAfterCreateSuccess_def by (intro device_hook_keeps) auto
  qed
  have simple: "r \<in> set (rows (snd (simple_test P w)))" if "r \<in> set (drop 10 (rows w))" for r
  proof -
    from that have r: "r \<in> set (rows w)"
      by (rule in_set_dropD)
    from beyond_limit [OF assms that] have "ident r \<notin> ident ` set (devices_found w)"
      by (simp add: found)
    with r show ?thesis
      by (intro simple_test_keeps) (auto simp: image_iff)
  qed
  from all ex found sweep hook simple show ?thesis
    by simp
qed

theorem passes_see_bounded_prefix_witness:
  "distinct (map ident (rows eleven))
   \<and> length (devices_found eleven) \<le> 10
   \<and> dev ''k'' (Some ''Fa'') True (Some ''u'') None None (Some 1) \<in> set (drop 10 (rows eleven))
   \<and> dev ''k'' (Some ''Fa'') True (Some ''u'') None None (Some 1)
        \<in> set (rows (snd (simple_test ticking eleven)))"
proof -
  have h: "distinct (map ident (rows eleven))"
    by (simp add: eleven_def dev_def)
  have k: "dev ''k'' (Some ''Fa'') True (Some ''u'') None None (Some 1) \<in> set (drop 10 (rows eleven))"
    by (simp add: eleven_def)
  from passes_see_bounded_prefix [OF h, of ticking "dev ''k'' (Some ''Fa'') True (Some ''u'') None None (Some 1)"] h k
  show ?thesis by blast
qed

section \<open>Ids that stay, ids that go\<close>

lemma upsert_has: "d \<in> set (upsert d rs)"
  by (auto simp: upsert_def)

lemma idents_upsert: "ident ` set (upsert d rs) = insert (ident d) (ident ` set rs)"
  by (auto simp: upsert_def image_iff)

lemma deactivate_others_idents:
  "ident ` set (rows (final (deactivate_others P ds w))) \<subseteq> ident ` set (rows w) \<union> ident ` set ds"
proof (induction ds arbitrary: w)
  case Nil
  then show ?case by simp
next
  case (Cons d ds)
  let ?d = "log_out (reading P w) d"
  show ?case
  proof (cases rule: saveRecord_cases [of P ?d "ticked w"])
    case refused
    then show ?thesis by (auto simp: Let_def)
  next
    case saved
    with Cons.IH [of "ticked w\<lparr>rows := upsert ?d (rows (ticked w))\<rparr>"] show ?thesis
      by (auto simp: Let_def idents_upsert)
  qed
qed

section \<open>No pass but the hooks deletes\<close>

lemma deactivate_others_grows:
  "ident ` set (rows w) \<subseteq> ident ` set (rows (final (deactivate_others P ds w)))"
proof (induction ds arbitrary: w)
  case Nil
  then show ?case by simp
next
  case (Cons d ds)
  let ?d = "log_out (reading P w) d"
  show ?case
  proof (cases rule: saveRecord_cases [of P ?d "ticked w"])
    case refused
    then show ?thesis by (simp add: Let_def)
  next
    case saved
    with Cons.IH [of "ticked w\<lparr>rows := upsert ?d (rows (ticked w))\<rparr>"] show ?thesis
      by (auto simp: Let_def idents_upsert)
  qed
qed

lemma deactivate_duplicates_grows:
  "ident ` set (rows w) \<subseteq> ident ` set (rows (final (deactivate_duplicates P pre ds w)))"
proof (induction ds arbitrary: w)
  case Nil
  then show ?case by simp
next
  case (Cons d ds)
  let ?d = "deactivate P pre (reading P w) (reading P (ticked w)) d"
  let ?w = "ticked (ticked w)"
  show ?case
  proof (cases rule: saveRecord_cases [of P ?d ?w])
    case refused
    then show ?thesis by (simp add: Let_def)
  next
    case saved
    with Cons.IH [of "?w\<lparr>rows := upsert ?d (rows ?w)\<rparr>"] show ?thesis
      by (auto simp: Let_def idents_upsert)
  qed
qed

lemma process_duplicates_grows:
  "ident ` set (rows w) \<subseteq> ident ` set (rows (final (process_duplicates P pre devices w)))"
proof (cases "sort_by_activity devices")
  case Nil
  then show ?thesis by (simp add: process_duplicates_def)
next
  case (Cons p dups)
  let ?p = "keep_primary (reading P w) p"
  show ?thesis
  proof (cases rule: saveRecord_cases [of P ?p "ticked w"])
    case refused
    with Cons show ?thesis by (simp add: process_duplicates_def Let_def)
  next
    case saved
    with Cons deactivate_duplicates_grows [of "ticked w\<lparr>rows := upsert ?p (rows (ticked w))\<rparr>" P pre dups]
    show ?thesis
      by (auto simp: process_duplicates_def Let_def idents_upsert)
  qed
qed

lemma process_groups_grows:
  "ident ` set (rows w) \<subseteq> ident ` set (rows (final (process_groups P pre gs w)))"
proof (induction gs arbitrary: w)
  case Nil
  then show ?case by simp
next
  case (Cons g gs)
  obtain fp devices where g: "g = (fp, devices)" by (cases g)
  show ?case
  proof (cases "length devices \<le> 1")
    case True
    with Cons.IH [of w] show ?thesis by (simp add: g)
  next
    case False
    show ?thesis
    proof (cases "process_duplicates P pre devices w")
      case (Inl a)
      with process_duplicates_grows [of w P pre devices] False show ?thesis
        by (simp add: g)
    next
      case (Inr w')
      with process_duplicates_grows [of w P pre devices] Cons.IH [of w'] False show ?thesis
        by (auto simp: g)
    qed
  qed
qed

lemma check_duplicates_grows:
  "ident ` set (rows w) \<subseteq> ident ` set (rows (final (check_duplicates P gs w)))"
proof (induction gs arbitrary: w)
  case Nil
  then show ?case by simp
next
  case (Cons g gs)
  obtain fp devices where g: "g = (fp, devices)" by (cases g)
  let ?ds = "tl (sort_by_activity_simple devices)"
  show ?case
  proof (cases "length devices > 1")
    case False
    with Cons.IH [of w] show ?thesis by (simp add: g)
  next
    case True
    show ?thesis
    proof (cases "deactivate_others P ?ds w")
      case (Inl a)
      with deactivate_others_grows [of w P ?ds] True show ?thesis
        by (simp add: g)
    next
      case (Inr w')
      with deactivate_others_grows [of w P ?ds] Cons.IH [of w'] True show ?thesis
        by (auto simp: g)
    qed
  qed
qed

lemma archive_devices_grows:
  "ident ` set (rows w) \<subseteq> ident ` set (rows (snd (archive_devices P ds w)))"
proof (induction ds arbitrary: w)
  case Nil
  then show ?case by simp
next
  case (Cons d ds)
  let ?d = "archive P (reading P w) d"
  show ?case
  proof (cases rule: saveRecord_cases [of P ?d "ticked w"])
    case refused
    with Cons.IH [of "ticked w"] show ?thesis
      by (auto simp: Let_def split: prod.splits)
  next
    case saved
    with Cons.IH [of "ticked w\<lparr>rows := upsert ?d (rows (ticked w))\<rparr>"] show ?thesis
      by (auto simp: Let_def idents_upsert)
  qed
qed

lemma settle_primary_grows:
  "ident ` set (rows w) - {ident n} \<subseteq> ident ` set (rows (final (settle_primary P n p w)))"
  "ident p = ident n \<Longrightarrow> ident ` set (rows w) \<subseteq> ident ` set (rows (final (settle_primary P n p w)))"
proof -
  have del: "ident ` set (filter (\<lambda>r. ident r \<noteq> i) rs) = ident ` set rs - {i}" for i rs
    by auto
  show "ident ` set (rows w) - {ident n} \<subseteq> ident ` set (rows (final (settle_primary P n p w)))"
    by (auto simp: settle_primary_def Let_def saveRecord_def deleteRecord_def idents_upsert del
        simp del: set_filter)
  assume "ident p = ident n"
  then show "ident ` set (rows w) \<subseteq> ident ` set (rows (final (settle_primary P n p w)))"
    by (auto simp: settle_primary_def Let_def saveRecord_def idents_upsert)
qed

lemma cleanup_duplicates_grows:
  "ident ` set (rows w) - {ident n} \<subseteq> ident ` set (rows (final (cleanup_duplicates P n existing w)))"
  "ident (primaryDevice P n existing w) = ident n \<Longrightarrow>
   ident ` set (rows w) \<subseteq> ident ` set (rows (final (cleanup_duplicates P n existing w)))"
proof -
  let ?w0 = "snd (primaryActivity P n w)"
  let ?p = "primaryDevice P n existing w"
  let ?others = "filter (\<lambda>d. ident d \<noteq> ident ?p) existing"
  have step: "ident ` set (rows (final (settle_primary P n ?p ?w0)))
      \<subseteq> ident ` set (rows (final (cleanup_duplicates P n existing w)))"
  proof (cases "settle_primary P n ?p ?w0")
    case (Inl a)
    then show ?thesis by (simp add: cleanup_duplicates_def)
  next
    case (Inr w1)
    with deactivate_others_grows [of w1 P ?others] show ?thesis
      by (simp add: cleanup_duplicates_def)
  qed
  from step settle_primary_grows(1) [of ?w0 n P ?p]
  show "ident ` set (rows w) - {ident n} \<subseteq> ident ` set (rows (final (cleanup_duplicates P n existing w)))"
    by auto
  assume "ident ?p = ident n"
  from step settle_primary_grows(2) [OF this, of ?w0 P]
  show "ident ` set (rows w) \<subseteq> ident ` set (rows (final (cleanup_duplicates P n existing w)))"
    by simp
qed

section \<open>What the groups are\<close>

lemma keys_push_device: "fst ` set (push_device fp d gs) = insert fp (fst ` set gs)"
  by (induction fp d gs rule: push_device.induct) auto

lemma distinct_push_device:
  "distinct (map fst gs) \<Longrightarrow> distinct (map fst (push_device fp d gs))"
  by (induction fp d gs rule: push_device.induct) (auto simp: keys_push_device)

lemma map_of_push_device:
  "map_of (push_device fp d gs) =
     (map_of gs)(fp \<mapsto> (case map_of gs fp of None \<Rightarrow> [] | Some ds \<Rightarrow> ds) @ [d])"
  by (induction fp d gs rule: push_device.induct) (auto simp: fun_eq_iff)

lemma distinct_grouped:
  "distinct (map fst gs) \<Longrightarrow> distinct (map fst (grouped xs gs))"
  by (induction xs arbitrary: gs) (auto simp: distinct_push_device split: option.splits)

lemma map_of_grouped:
  "map_of (grouped xs gs) fp =
     (if fp = [] \<or> filter (\<lambda>d. device_fingerprint d = Some fp) xs = [] then map_of gs fp
      else Some ((case map_of gs fp of None \<Rightarrow> [] | Some ds \<Rightarrow> ds)
                 @ filter (\<lambda>d. device_fingerprint d = Some fp) xs))"
proof (induction xs arbitrary: gs)
  case Nil
  then show ?case by simp
next
  case (Cons x xs)
  show ?case
  proof (cases "device_fingerprint x")
    case None
    with Cons.IH [of gs] show ?thesis by simp
  next
    case (Some k)
    show ?thesis
    proof (cases "k = []")
      case True
      with Some Cons.IH [of gs] show ?thesis by auto
    next
      case False
      with Some Cons.IH [of "push_device k x gs"] show ?thesis
        by (auto simp: map_of_push_device)
    qed
  qed
qed

text \<open>Each group is a fingerprint with the devices of the query that carry it, in query order.\<close>

lemma grouped_iff:
  "(fp, ds) \<in> set (grouped xs []) \<longleftrightarrow>
     fp \<noteq> [] \<and> ds \<noteq> [] \<and> ds = filter (\<lambda>d. device_fingerprint d = Some fp) xs"
proof -
  have "distinct (map fst (grouped xs []))"
    by (rule distinct_grouped) simp
  then have "(fp, ds) \<in> set (grouped xs []) \<longleftrightarrow> map_of (grouped xs []) fp = Some ds"
    by simp
  then show ?thesis
    by (auto simp: map_of_grouped)
qed

lemma distinct_rows: "distinct (map ident xs) \<Longrightarrow> distinct xs"
  by (simp add: distinct_map)

lemma distinct_allDevices: "distinct (map ident (rows w)) \<Longrightarrow> distinct (map ident (allDevices w))"
  by (simp add: allDevices_def findRecordsByFilter_def distinct_ident_sorts
      flip: take_map)

lemma distinct_devices_found: "distinct (map ident (rows w)) \<Longrightarrow> distinct (map ident (devices_found w))"
  by (simp add: devices_found_def findRecordsByFilter_def distinct_ident_sorts
      flip: take_map)

lemma only_member:
  assumes "distinct (map ident xs)" and "r \<in> set xs"
    and "\<And>d. d \<in> set xs \<Longrightarrow> device_fingerprint d = device_fingerprint r \<Longrightarrow> d = r"
  shows "length (filter (\<lambda>d. device_fingerprint d = device_fingerprint r) xs) \<le> 1"
proof -
  let ?ds = "filter (\<lambda>d. device_fingerprint d = device_fingerprint r) xs"
  from assms(1) have "distinct ?ds"
    by (simp add: distinct_rows)
  then have "length ?ds = card (set ?ds)"
    by (rule distinct_card [symmetric])
  also from assms(3) have "set ?ds \<subseteq> {r}"
    by auto
  then have "card (set ?ds) \<le> card {r}"
    by (intro card_mono) auto
  finally show ?thesis by simp
qed

lemma lone_record_in_no_duplicate_group:
  assumes "distinct (map ident xs)" and "set xs \<subseteq> set table" and "distinct (map ident table)"
    and "r \<in> set table"
    and "\<And>d. d \<in> set table \<Longrightarrow> device_fingerprint d = device_fingerprint r \<Longrightarrow> d = r"
    and "(fp, ds) \<in> set (grouped xs [])" and "1 < length ds"
  shows "ident r \<notin> ident ` set ds"
proof
  assume "ident r \<in> ident ` set ds"
  then obtain d where d: "d \<in> set ds" "ident d = ident r" by auto
  from assms(6) have ds: "ds = filter (\<lambda>d. device_fingerprint d = Some fp) xs"
    by (simp add: grouped_iff)
  with d assms(2) have "d \<in> set table" "device_fingerprint d = Some fp" "d \<in> set xs"
    by auto
  with d assms(3,4) have "d = r"
    using same_ident by blast
  with \<open>device_fingerprint d = Some fp\<close> \<open>d \<in> set xs\<close>
  have fp: "device_fingerprint r = Some fp" and rx: "r \<in> set xs" by simp_all
  from assms(2,5) have "\<And>d. d \<in> set xs \<Longrightarrow> device_fingerprint d = device_fingerprint r \<Longrightarrow> d = r"
    by auto
  from only_member [OF assms(1) rx this] assms(7) show False
    by (simp add: ds fp)
qed

section \<open>What the daily sweep writes when every save is accepted\<close>

lemma tick_ticked [simp]: "tick (ticked w) = Suc (tick w)"
  by (simp add: ticked_def)

lemma deactivate_duplicates_accepted:
  assumes "\<forall>x. \<not> save_fails P x"
  shows "\<exists>w'. deactivate_duplicates P pre ds w = Inr w' \<and> tick w \<le> tick w'"
proof (induction ds arbitrary: w)
  case Nil
  then show ?case by simp
next
  case (Cons d ds)
  let ?d = "deactivate P pre (reading P w) (reading P (ticked w)) d"
  let ?w = "(ticked (ticked w))\<lparr>rows := upsert ?d (rows (ticked (ticked w)))\<rparr>"
  from Cons.IH [of ?w] obtain w' where "deactivate_duplicates P pre ds ?w = Inr w'" "tick ?w \<le> tick w'"
    by blast
  with assms show ?case
    by (simp add: Let_def saveRecord_def)
qed

lemma deactivate_duplicates_written:
  assumes "\<forall>x. \<not> save_fails P x" and "distinct (map ident ds)" and "d \<in> set ds"
  shows "\<exists>k \<ge> tick w. deactivate P pre (clock P k) (clock P (Suc k)) d
           \<in> set (rows (final (deactivate_duplicates P pre ds w)))"
  using assms(2,3)
proof (induction ds arbitrary: w)
  case Nil
  then show ?case by simp
next
  case (Cons x xs)
  let ?x = "deactivate P pre (reading P w) (reading P (ticked w)) x"
  let ?w = "(ticked (ticked w))\<lparr>rows := upsert ?x (rows (ticked (ticked w)))\<rparr>"
  have step: "deactivate_duplicates P pre (x # xs) w = deactivate_duplicates P pre xs ?w"
    using assms(1) by (simp add: Let_def saveRecord_def)
  show ?case
  proof (cases "d = x")
    case True
    have "?x \<in> set (rows ?w)"
      by (simp add: upsert_has)
    moreover from Cons.prems have "ident ?x \<notin> ident ` set xs"
      by auto
    ultimately have "?x \<in> set (rows (final (deactivate_duplicates P pre xs ?w)))"
      by (rule deactivate_duplicates_keeps)
    with True show ?thesis
      unfolding step by (auto simp: reading_def intro!: exI [of _ "tick w"])
  next
    case False
    with Cons.prems have "distinct (map ident xs)" "d \<in> set xs"
      by auto
    from Cons.IH [OF this, of ?w] obtain k where "tick ?w \<le> k"
      "deactivate P pre (clock P k) (clock P (Suc k)) d
         \<in> set (rows (final (deactivate_duplicates P pre xs ?w)))"
      by blast
    then show ?thesis
      unfolding step by (auto intro!: exI [of _ k])
  qed
qed

lemma sort_by_activity_Cons:
  assumes "sort_by_activity devices = p # dups"
  shows "set devices = insert p (set dups)"
    and "distinct (map ident devices) \<Longrightarrow> distinct (map ident dups) \<and> ident p \<notin> ident ` set dups"
proof -
  show "set devices = insert p (set dups)"
    using assms by (metis list.simps(15) set_sort sort_by_activity_def)
  assume "distinct (map ident devices)"
  then have "distinct (map ident (sort_by_activity devices))"
    by (simp add: sort_by_activity_def distinct_map)
  with assms show "distinct (map ident dups) \<and> ident p \<notin> ident ` set dups"
    by simp
qed

lemma process_duplicates_accepted:
  assumes "\<forall>x. \<not> save_fails P x"
  shows "\<exists>w'. process_duplicates P pre devices w = Inr w' \<and> tick w \<le> tick w'"
proof (cases "sort_by_activity devices")
  case Nil
  then show ?thesis by (simp add: process_duplicates_def)
next
  case (Cons p dups)
  let ?p = "keep_primary (reading P w) p"
  let ?w = "(ticked w)\<lparr>rows := upsert ?p (rows (ticked w))\<rparr>"
  from deactivate_duplicates_accepted [OF assms, of pre dups ?w]
  obtain w' where "deactivate_duplicates P pre dups ?w = Inr w'" "tick ?w \<le> tick w'"
    by blast
  with assms Cons show ?thesis
    by (simp add: process_duplicates_def Let_def saveRecord_def)
qed

lemma process_duplicates_written:
  assumes "\<forall>x. \<not> save_fails P x" and "distinct (map ident devices)"
    and "d \<in> set (tl (sort_by_activity devices))"
  shows "\<exists>k \<ge> tick w. deactivate P pre (clock P k) (clock P (Suc k)) d
           \<in> set (rows (final (process_duplicates P pre devices w)))"
proof (cases "sort_by_activity devices")
  case Nil
  with assms(3) show ?thesis by simp
next
  case (Cons p dups)
  let ?p = "keep_primary (reading P w) p"
  let ?w = "(ticked w)\<lparr>rows := upsert ?p (rows (ticked w))\<rparr>"
  have step: "process_duplicates P pre devices w = deactivate_duplicates P pre dups ?w"
    using assms(1) Cons by (simp add: process_duplicates_def Let_def saveRecord_def)
  from sort_by_activity_Cons(2) [OF Cons assms(2)] have "distinct (map ident dups)"
    by simp
  moreover from assms(3) Cons have "d \<in> set dups"
    by simp
  ultimately obtain k where "tick ?w \<le> k"
      "deactivate P pre (clock P k) (clock P (Suc k)) d
         \<in> set (rows (final (deactivate_duplicates P pre dups ?w)))"
    using deactivate_duplicates_written [OF assms(1), of dups d ?w pre] by blast
  then show ?thesis
    unfolding step by (auto intro!: exI [of _ k])
qed

lemma process_groups_written:
  assumes "\<forall>x. \<not> save_fails P x"
  shows "distinct (map ident (concat (map snd gs))) \<Longrightarrow> (fp, ds) \<in> set gs \<Longrightarrow> 1 < length ds \<Longrightarrow>
         d \<in> set (tl (sort_by_activity ds)) \<Longrightarrow>
         \<exists>k \<ge> tick w. deactivate P pre (clock P k) (clock P (Suc k)) d
           \<in> set (rows (final (process_groups P pre gs w)))"
proof (induction gs arbitrary: w)
  case Nil
  then show ?case by simp
next
  case (Cons g gs)
  obtain fp0 ds0 where g: "g = (fp0, ds0)" by (cases g)
  from Cons.prems(1) have d0: "distinct (map ident ds0)"
    and drest: "distinct (map ident (concat (map snd gs)))"
    and disj: "ident ` set ds0 \<inter> ident ` set (concat (map snd gs)) = {}"
    by (auto simp: g)
  obtain w' where w': "process_duplicates P pre ds0 w = Inr w'" "tick w \<le> tick w'"
    using process_duplicates_accepted [OF assms] by blast
  define w1 where "w1 = (if length ds0 \<le> 1 then w else w')"
  have step: "process_groups P pre (g # gs) w = process_groups P pre gs w1"
    by (simp add: g w' w1_def)
  have tick1: "tick w \<le> tick w1"
    using w' by (simp add: w1_def)
  from Cons.prems(2) consider (head) "fp = fp0" "ds = ds0" | (tail) "(fp, ds) \<in> set gs"
    by (auto simp: g)
  then show ?case
  proof cases
    case head
    with Cons.prems(3) have w1: "w1 = final (process_duplicates P pre ds0 w)"
      by (simp add: w1_def w')
    from process_duplicates_written [OF assms d0, of d w pre] Cons.prems(4) head
    obtain k where k: "tick w \<le> k" "deactivate P pre (clock P k) (clock P (Suc k)) d \<in> set (rows w1)"
      unfolding w1 by blast
    from Cons.prems(4) head have "d \<in> set ds0"
      by (metis list.set_sel(2) set_sort sort_by_activity_def tl_Nil empty_iff empty_set)
    with disj have "ident d \<notin> ident ` set ds'" if "(fp', ds') \<in> set gs" for fp' ds'
      using that by force
    then have "deactivate P pre (clock P k) (clock P (Suc k)) d
        \<in> set (rows (final (process_groups P pre gs w1)))"
      by (intro process_groups_keeps [OF k(2)]) simp
    with k(1) show ?thesis
      unfolding step by blast
  next
    case tail
    from Cons.IH [OF drest tail Cons.prems(3,4), of w1] tick1 show ?thesis
      unfolding step by (meson le_trans)
  qed
qed

lemma mset_push_device:
  "mset (concat (map snd (push_device fp d gs))) = add_mset d (mset (concat (map snd gs)))"
  by (induction fp d gs rule: push_device.induct) simp_all

lemma mset_grouped:
  "mset (concat (map snd (grouped xs gs))) =
     mset (concat (map snd gs)) + mset (filter (\<lambda>d. truthy (device_fingerprint d)) xs)"
  by (induction xs arbitrary: gs) (simp_all add: mset_push_device truthy_def split: option.splits)

lemma distinct_group_members:
  assumes "distinct (map ident xs)"
  shows "distinct (map ident (concat (map snd (grouped xs []))))"
proof -
  have "mset (map ident (concat (map snd (grouped xs [])))) =
      mset (map ident (filter (\<lambda>d. truthy (device_fingerprint d)) xs))"
    by (simp add: mset_grouped)
  moreover from assms have "distinct (map ident (filter (\<lambda>d. truthy (device_fingerprint d)) xs))"
    by (rule distinct_ident_filter)
  ultimately show ?thesis
    by (metis mset_eq_imp_distinct_iff)
qed

lemma distinct_for_in_members:
  assumes "distinct (map ident xs)"
  shows "distinct (map ident (concat (map snd (for_in (grouped xs [])))))"
proof -
  have "mset (concat (map snd (for_in (grouped xs [])))) = mset (concat (map snd (grouped xs [])))"
    by (simp add: mset_concat flip: sum_mset_sum_list)
  then have "mset (map ident (concat (map snd (for_in (grouped xs [])))))
      = mset (map ident (concat (map snd (grouped xs []))))"
    by (metis mset_map)
  with distinct_group_members [OF assms] show ?thesis
    by (metis mset_eq_imp_distinct_iff)
qed

lemma cleanup_job_written:
  assumes "\<forall>x. \<not> save_fails P x" and "distinct (map ident (rows w))"
    and "group_devices (allDevices w) [] = Inr gs"
    and "(fp, ds) \<in> set gs" and "1 < length ds"
    and "d \<in> set (tl (sort_by_activity ds))"
  shows "\<exists>k \<ge> tick w. deactivate P pre (clock P k) (clock P (Suc k)) d
           \<in> set (rows (snd (cleanup_job P pre stats w)))"
proof -
  from assms(3) have gs: "gs = grouped (allDevices w) []"
    by (rule group_devices_Inr)
  have "distinct (map ident (concat (map snd (for_in gs))))"
    unfolding gs using distinct_allDevices [OF assms(2)] by (rule distinct_for_in_members)
  moreover from assms(4) have "(fp, ds) \<in> set (for_in gs)"
    by simp
  ultimately show ?thesis
    using process_groups_written [OF assms(1) _ _ assms(5,6), of "for_in gs" fp w pre] assms(3)
    by (simp add: rows_cleanup_job gs)
qed

lemma deactivate_others_accepted:
  assumes "\<forall>x. \<not> save_fails P x"
  shows "\<exists>w'. deactivate_others P ds w = Inr w' \<and> tick w \<le> tick w'"
proof (induction ds arbitrary: w)
  case Nil
  then show ?case by simp
next
  case (Cons d ds)
  let ?d = "log_out (reading P w) d"
  let ?w = "(ticked w)\<lparr>rows := upsert ?d (rows (ticked w))\<rparr>"
  from Cons.IH [of ?w] obtain w' where "deactivate_others P ds ?w = Inr w'" "tick ?w \<le> tick w'"
    by blast
  with assms show ?case
    by (simp add: Let_def saveRecord_def)
qed

lemma deactivate_others_written:
  assumes "\<forall>x. \<not> save_fails P x" and "distinct (map ident ds)" and "d \<in> set ds"
  shows "\<exists>k \<ge> tick w. log_out (clock P k) d \<in> set (rows (final (deactivate_others P ds w)))"
  using assms(2,3)
proof (induction ds arbitrary: w)
  case Nil
  then show ?case by simp
next
  case (Cons x xs)
  let ?x = "log_out (reading P w) x"
  let ?w = "(ticked w)\<lparr>rows := upsert ?x (rows (ticked w))\<rparr>"
  have step: "deactivate_others P (x # xs) w = deactivate_others P xs ?w"
    using assms(1) by (simp add: Let_def saveRecord_def)
  show ?case
  proof (cases "d = x")
    case True
    have "?x \<in> set (rows ?w)"
      by (simp add: upsert_has)
    moreover from Cons.prems have "ident ?x \<notin> ident ` set xs"
      by auto
    ultimately have "?x \<in> set (rows (final (deactivate_others P xs ?w)))"
      by (rule deactivate_others_keeps)
    with True show ?thesis
      unfolding step by (auto simp: reading_def intro!: exI [of _ "tick w"])
  next
    case False
    with Cons.prems have "distinct (map ident xs)" "d \<in> set xs"
      by auto
    from Cons.IH [OF this, of ?w] obtain k where "tick ?w \<le> k"
      "log_out (clock P k) d \<in> set (rows (final (deactivate_others P xs ?w)))"
      by blast
    then show ?thesis
      unfolding step by (auto intro!: exI [of _ k])
  qed
qed

lemma tl_sort_by_activity_simple:
  "set (tl (sort_by_activity_simple ds)) \<subseteq> set ds"
  "distinct (map ident ds) \<Longrightarrow> distinct (map ident (tl (sort_by_activity_simple ds)))"
proof -
  show "set (tl (sort_by_activity_simple ds)) \<subseteq> set ds"
    by (metis list.set_sel(2) set_sort sort_by_activity_simple_def subsetI tl_Nil)
  assume "distinct (map ident ds)"
  then have "distinct (map ident (sort_by_activity_simple ds))"
    by (simp add: sort_by_activity_simple_def distinct_map)
  then show "distinct (map ident (tl (sort_by_activity_simple ds)))"
    by (simp add: distinct_tl map_tl)
qed

lemma check_duplicates_written:
  assumes "\<forall>x. \<not> save_fails P x"
  shows "distinct (map ident (concat (map snd gs))) \<Longrightarrow> (fp, ds) \<in> set gs \<Longrightarrow> 1 < length ds \<Longrightarrow>
         d \<in> set (tl (sort_by_activity_simple ds)) \<Longrightarrow>
         \<exists>k \<ge> tick w. log_out (clock P k) d \<in> set (rows (final (check_duplicates P gs w)))"
proof (induction gs arbitrary: w)
  case Nil
  then show ?case by simp
next
  case (Cons g gs)
  obtain fp0 ds0 where g: "g = (fp0, ds0)" by (cases g)
  let ?losers = "tl (sort_by_activity_simple ds0)"
  from Cons.prems(1) have d0: "distinct (map ident ds0)"
    and drest: "distinct (map ident (concat (map snd gs)))"
    and disj: "ident ` set ds0 \<inter> ident ` set (concat (map snd gs)) = {}"
    by (auto simp: g)
  obtain w' where w': "deactivate_others P ?losers w = Inr w'" "tick w \<le> tick w'"
    using deactivate_others_accepted [OF assms] by blast
  define w1 where "w1 = (if length ds0 > 1 then w' else w)"
  have step: "check_duplicates P (g # gs) w = check_duplicates P gs w1"
    by (simp add: g w' w1_def)
  have tick1: "tick w \<le> tick w1"
    using w' by (simp add: w1_def)
  from Cons.prems(2) consider (head) "fp = fp0" "ds = ds0" | (tail) "(fp, ds) \<in> set gs"
    by (auto simp: g)
  then show ?case
  proof cases
    case head
    with Cons.prems(3) have w1: "w1 = final (deactivate_others P ?losers w)"
      by (simp add: w1_def w')
    from deactivate_others_written [OF assms tl_sort_by_activity_simple(2) [OF d0], of d w]
      Cons.prems(4) head
    obtain k where k: "tick w \<le> k" "log_out (clock P k) d \<in> set (rows w1)"
      unfolding w1 by blast
    from Cons.prems(4) head tl_sort_by_activity_simple(1) [of ds0] have "d \<in> set ds0"
      by auto
    with disj have "ident d \<notin> ident ` set ds'" if "(fp', ds') \<in> set gs" for fp' ds'
      using that by force
    then have "log_out (clock P k) d \<in> set (rows (final (check_duplicates P gs w1)))"
      by (intro check_duplicates_keeps [OF k(2)]) simp
    with k(1) show ?thesis
      unfolding step by blast
  next
    case tail
    from Cons.IH [OF drest tail Cons.prems(3,4), of w1] tick1 show ?thesis
      unfolding step by (meson le_trans)
  qed
qed

lemma simple_test_written:
  assumes "\<forall>x. \<not> save_fails P x" and "distinct (map ident (rows w))"
    and "group_devices (devices_found w) [] = Inr gs"
    and "(fp, ds) \<in> set gs" and "1 < length ds"
    and "d \<in> set (tl (sort_by_activity_simple ds))"
  shows "\<exists>k \<ge> tick w. log_out (clock P k) d \<in> set (rows (snd (simple_test P w)))"
proof -
  from assms(3) have gs: "gs = grouped (devices_found w) []"
    by (rule group_devices_Inr)
  have "distinct (map ident (concat (map snd (for_in gs))))"
    unfolding gs using distinct_devices_found [OF assms(2)] by (rule distinct_for_in_members)
  moreover from assms(4) have "(fp, ds) \<in> set (for_in gs)"
    by simp
  ultimately show ?thesis
    using check_duplicates_written [OF assms(1) _ _ assms(5,6), of "for_in gs" fp w] assms(3)
    by (simp add: rows_simple_test gs)
qed

lemma tick_primaryActivity: "tick w \<le> tick (snd (primaryActivity P n w))"
  by (simp add: primaryActivity_def split: option.splits)

lemma settle_primary_accepted:
  assumes "\<forall>x. \<not> save_fails P x" and "\<forall>x. \<not> delete_fails P x"
  shows "\<exists>w1. settle_primary P n p w = Inr w1 \<and> tick w \<le> tick w1"
  using assms by (simp add: settle_primary_def Let_def saveRecord_def deleteRecord_def)

lemma distinct_existingDevices:
  "distinct (map ident (rows w)) \<Longrightarrow> distinct (map ident (existingDevices n w))"
  by (simp add: existingDevices_def findRecordsByFilter_def distinct_ident_sorts
      distinct_ident_filter flip: take_map)

lemma device_hook_written:
  assumes "\<forall>x. \<not> save_fails P x" and "\<forall>x. \<not> delete_fails P x"
    and "distinct (map ident (rows w))" and "truthy (device_fingerprint n)"
    and "d \<in> set (existingDevices n w)"
    and "ident d \<noteq> ident (primaryDevice P n (existingDevices n w) w)"
  shows "\<exists>k \<ge> tick w. log_out (clock P k) d \<in> set (rows (snd (device_hook P n w)))"
proof -
  let ?existing = "existingDevices n w"
  let ?p = "primaryDevice P n ?existing w"
  let ?others = "filter (\<lambda>d. ident d \<noteq> ident ?p) ?existing"
  from settle_primary_accepted [OF assms(1,2)] obtain w1
    where w1: "settle_primary P n ?p (snd (primaryActivity P n w)) = Inr w1"
      and t1: "tick (snd (primaryActivity P n w)) \<le> tick w1"
    by blast
  from assms(5) have nonempty: "?existing \<noteq> []"
    by auto
  have snd: "snd (device_hook P n w) = final (deactivate_others P ?others w1)"
    using assms(4) nonempty w1 by (simp add: snd_device_hook cleanup_duplicates_def)
  have "distinct (map ident ?others)"
    using distinct_existingDevices [OF assms(3)] by (rule distinct_ident_filter)
  moreover from assms(5,6) have "d \<in> set ?others"
    by simp
  ultimately obtain k where "tick w1 \<le> k"
      "log_out (clock P k) d \<in> set (rows (final (deactivate_others P ?others w1)))"
    using deactivate_others_written [OF assms(1), of ?others d w1] by blast
  with t1 tick_primaryActivity [of w P n] show ?thesis
    unfolding snd by (auto intro!: exI [of _ k])
qed

section \<open>Which device is selected\<close>

lemma sort_by_activity_hd:
  assumes "ds \<noteq> []"
  shows "hd (sort_by_activity ds) \<in> set ds"
    and "\<forall>d \<in> set ds. activity d \<le> activity (hd (sort_by_activity ds))"
    and "hd (sort_by_activity ds) =
           hd (filter (\<lambda>d. activity d = activity (hd (sort_by_activity ds))) ds)"
proof -
  let ?f = "\<lambda>d. - activity d"
  from assms obtain p rest where s: "sort_key ?f ds = p # rest"
    by (cases "sort_key ?f ds") (auto dest: arg_cong [where f = length])
  then have p: "hd (sort_by_activity ds) = p"
    by (simp add: sort_by_activity_def)
  from s have "set ds = insert p (set rest)"
    by (metis list.simps(15) set_sort)
  then show "hd (sort_by_activity ds) \<in> set ds"
    by (simp add: p)
  have "sorted (map ?f (sort_key ?f ds))"
    by (rule sorted_sort_key)
  with s have "\<forall>d \<in> set rest. ?f p \<le> ?f d"
    by simp
  with \<open>set ds = insert p (set rest)\<close>
  show "\<forall>d \<in> set ds. activity d \<le> activity (hd (sort_by_activity ds))"
    by (auto simp: p)
  have "filter (\<lambda>d. ?f d = ?f p) ds = filter (\<lambda>d. ?f d = ?f p) (sort_key ?f ds)"
    by (rule sort_key_stable [symmetric])
  also have "\<dots> = p # filter (\<lambda>d. ?f d = ?f p) rest"
    by (simp add: s)
  finally have "hd (filter (\<lambda>d. activity d = activity p) ds) = p"
    by simp
  then show "hd (sort_by_activity ds) =
      hd (filter (\<lambda>d. activity d = activity (hd (sort_by_activity ds))) ds)"
    by (simp add: p)
qed

lemma find_primary_tie:
  "(\<forall>d \<in> set ds. \<forall>t. deviceActivity d = Some t \<longrightarrow> t \<le> pa) \<Longrightarrow>
   find_primary ds (p, pa) = (p, pa)"
  by (induction ds) (auto split: option.splits)

lemma find_primary_greatest:
  "find_primary ds (p, pa) = (p', pa') \<Longrightarrow>
   pa \<le> pa' \<and> (\<forall>d \<in> set ds. deviceActivity d \<le> Some pa')
   \<and> (p' = p \<and> pa' = pa \<or> p' \<in> set ds \<and> deviceActivity p' = Some pa' \<and> pa < pa')"
proof (induction ds arbitrary: p pa)
  case Nil
  then show ?case by simp
next
  case (Cons d ds)
  show ?case
  proof (cases "deviceActivity d")
    case None
    with Cons.prems have "find_primary ds (p, pa) = (p', pa')" by simp
    from Cons.IH [OF this] None show ?thesis by auto
  next
    case (Some t)
    show ?thesis
    proof (cases "t > pa")
      case True
      with Some Cons.prems have "find_primary ds (d, t) = (p', pa')" by simp
      from Cons.IH [OF this] Some True show ?thesis by auto
    next
      case False
      with Some Cons.prems have "find_primary ds (p, pa) = (p', pa')" by simp
      from Cons.IH [OF this] Some False show ?thesis by auto
    qed
  qed
qed

section \<open>A refused save: where each pass stops\<close>

lemma saved_simps [simp]:
  "saved [] table = table"
  "saved (x # xs) table = saved xs (upsert x table)"
  "saved (xs @ ys) table = saved ys (saved xs table)"
  by (simp_all add: saved_def)

lemma deactivate_duplicates_plan_all:
  "rows (final (deactivate_duplicates P pre ds w)) =
     saved (takeWhile (\<lambda>x. \<not> save_fails P x) (planned_duplicates P pre ds (tick w))) (rows w)
   \<and> (isl (deactivate_duplicates P pre ds w) \<longleftrightarrow>
        (\<exists>x \<in> set (planned_duplicates P pre ds (tick w)). save_fails P x))
   \<and> (\<forall>w'. deactivate_duplicates P pre ds w = Inr w' \<longrightarrow> tick w' = tick w + 2 * length ds)"
proof (induction ds arbitrary: w)
  case Nil
  show ?case by simp
next
  case (Cons d ds)
  let ?d = "deactivate P pre (clock P (tick w)) (clock P (Suc (tick w))) d"
  let ?w = "(ticked (ticked w))\<lparr>rows := upsert ?d (rows (ticked (ticked w)))\<rparr>"
  have step: "deactivate_duplicates P pre (d # ds) w =
      (if save_fails P ?d then Inl (StoreWriteFailure, ticked (ticked w))
       else deactivate_duplicates P pre ds ?w)"
    by (simp add: Let_def saveRecord_def reading_def)
  have tick: "tick ?w = Suc (Suc (tick w))"
    by simp
  note IH = Cons.IH [of ?w]
  have ticks: "\<forall>w'. deactivate_duplicates P pre (d # ds) w = Inr w' \<longrightarrow>
      tick w' = tick w + 2 * length (d # ds)"
  proof (intro allI impI)
    fix w'
    assume "deactivate_duplicates P pre (d # ds) w = Inr w'"
    then have "deactivate_duplicates P pre ds ?w = Inr w'"
      unfolding step by (simp split: if_splits)
    with IH [THEN conjunct2, THEN conjunct2] have "tick w' = tick ?w + 2 * length ds"
      by blast
    then show "tick w' = tick w + 2 * length (d # ds)"
      by simp
  qed
  have "rows (final (deactivate_duplicates P pre (d # ds) w)) =
      saved (takeWhile (\<lambda>x. \<not> save_fails P x) (planned_duplicates P pre (d # ds) (tick w))) (rows w)"
    using IH [THEN conjunct1] unfolding step by (simp add: tick)
  moreover have "isl (deactivate_duplicates P pre (d # ds) w) \<longleftrightarrow>
      (\<exists>x \<in> set (planned_duplicates P pre (d # ds) (tick w)). save_fails P x)"
    using IH [THEN conjunct2, THEN conjunct1] unfolding step by (simp add: tick)
  ultimately show ?case
    using ticks by (intro conjI)
qed

lemma deactivate_duplicates_plan:
  "rows (final (deactivate_duplicates P pre ds w)) =
     saved (takeWhile (\<lambda>x. \<not> save_fails P x) (planned_duplicates P pre ds (tick w))) (rows w)"
  "isl (deactivate_duplicates P pre ds w) \<longleftrightarrow>
     (\<exists>x \<in> set (planned_duplicates P pre ds (tick w)). save_fails P x)"
  "deactivate_duplicates P pre ds w = Inr w' \<Longrightarrow> tick w' = tick w + 2 * length ds"
proof -
  note all = deactivate_duplicates_plan_all [of P pre ds w]
  show "rows (final (deactivate_duplicates P pre ds w)) =
     saved (takeWhile (\<lambda>x. \<not> save_fails P x) (planned_duplicates P pre ds (tick w))) (rows w)"
    by (rule all [THEN conjunct1])
  show "isl (deactivate_duplicates P pre ds w) \<longleftrightarrow>
     (\<exists>x \<in> set (planned_duplicates P pre ds (tick w)). save_fails P x)"
    by (rule all [THEN conjunct2, THEN conjunct1])
  assume "deactivate_duplicates P pre ds w = Inr w'"
  with all [THEN conjunct2, THEN conjunct2] show "tick w' = tick w + 2 * length ds"
    by simp
qed

lemma process_duplicates_plan:
  "rows (final (process_duplicates P pre devices w)) =
     saved (takeWhile (\<lambda>x. \<not> save_fails P x) (planned_group P pre devices (tick w))) (rows w)"
  "isl (process_duplicates P pre devices w) \<longleftrightarrow>
     (\<exists>x \<in> set (planned_group P pre devices (tick w)). save_fails P x)"
  "process_duplicates P pre devices w = Inr w' \<Longrightarrow> devices \<noteq> [] \<Longrightarrow>
     tick w' = tick w + (2 * length devices - 1)"
proof -
  show "rows (final (process_duplicates P pre devices w)) =
     saved (takeWhile (\<lambda>x. \<not> save_fails P x) (planned_group P pre devices (tick w))) (rows w)"
  proof (cases "sort_by_activity devices")
    case Nil
    then show ?thesis by (simp add: process_duplicates_def planned_group_def)
  next
    case (Cons p dups)
    let ?p = "keep_primary (clock P (tick w)) p"
    let ?w = "(ticked w)\<lparr>rows := upsert ?p (rows (ticked w))\<rparr>"
    from Cons deactivate_duplicates_plan(1) [of P pre dups ?w] show ?thesis
      by (simp add: process_duplicates_def planned_group_def Let_def saveRecord_def reading_def)
  qed
  show "isl (process_duplicates P pre devices w) \<longleftrightarrow>
     (\<exists>x \<in> set (planned_group P pre devices (tick w)). save_fails P x)"
  proof (cases "sort_by_activity devices")
    case Nil
    then show ?thesis by (simp add: process_duplicates_def planned_group_def)
  next
    case (Cons p dups)
    let ?p = "keep_primary (clock P (tick w)) p"
    let ?w = "(ticked w)\<lparr>rows := upsert ?p (rows (ticked w))\<rparr>"
    from Cons deactivate_duplicates_plan(2) [of P pre dups ?w] show ?thesis
      by (simp add: process_duplicates_def planned_group_def Let_def saveRecord_def reading_def)
  qed
  assume ok: "process_duplicates P pre devices w = Inr w'" and ne: "devices \<noteq> []"
  then obtain p dups where s: "sort_by_activity devices = p # dups"
    by (cases "sort_by_activity devices") (auto simp: sort_by_activity_def dest: arg_cong [where f = length])
  then have len: "length devices = Suc (length dups)"
    by (metis length_Cons length_sort sort_by_activity_def)
  let ?p = "keep_primary (clock P (tick w)) p"
  let ?w = "(ticked w)\<lparr>rows := upsert ?p (rows (ticked w))\<rparr>"
  from ok s have "deactivate_duplicates P pre dups ?w = Inr w'"
    by (simp add: process_duplicates_def Let_def saveRecord_def reading_def split: if_splits)
  from deactivate_duplicates_plan(3) [OF this] show "tick w' = tick w + (2 * length devices - 1)"
    by (simp add: len)
qed

lemma takeWhile_append_cases:
  "takeWhile p (xs @ ys) = (if \<forall>x \<in> set xs. p x then xs @ takeWhile p ys else takeWhile p xs)"
  by (induction xs) auto

lemma process_groups_plan_all:
  "rows (final (process_groups P pre gs w)) =
     saved (takeWhile (\<lambda>x. \<not> save_fails P x) (planned_groups P pre gs (tick w))) (rows w)
   \<and> (isl (process_groups P pre gs w) \<longleftrightarrow>
        (\<exists>x \<in> set (planned_groups P pre gs (tick w)). save_fails P x))"
proof (induction gs arbitrary: w)
  case Nil
  show ?case by simp
next
  case (Cons g gs)
  obtain fp ds where g: "g = (fp, ds)" by (cases g)
  show ?case
  proof (cases "length ds \<le> 1")
    case True
    with Cons.IH [of w] show ?thesis by (simp add: g)
  next
    case False
    then have ne: "ds \<noteq> []" by auto
    show ?thesis
    proof (cases "process_duplicates P pre ds w")
      case (Inl a)
      then obtain e w' where a: "a = (e, w')" by (cases a)
      from Inl process_duplicates_plan(2) [of P pre ds w]
      have bad: "\<exists>x \<in> set (planned_group P pre ds (tick w)). save_fails P x"
        by simp
      with Inl process_duplicates_plan(1) [of P pre ds w] False show ?thesis
        by (auto simp: g a takeWhile_append_cases)
    next
      case (Inr w')
      from Inr process_duplicates_plan(2) [of P pre ds w]
      have good: "\<forall>x \<in> set (planned_group P pre ds (tick w)). \<not> save_fails P x"
        by simp
      from process_duplicates_plan(3) [OF Inr ne]
      have tick: "tick w' = tick w + (2 * length ds - 1)" .
      from Inr process_duplicates_plan(1) [of P pre ds w] good
      have rows: "rows w' = saved (planned_group P pre ds (tick w)) (rows w)"
        by (simp add: takeWhile_eq_all_conv [THEN iffD2])
      from Cons.IH [of w'] Inr False good show ?thesis
        by (auto simp: g takeWhile_append_cases tick rows)
    qed
  qed
qed

lemma process_groups_plan:
  "rows (final (process_groups P pre gs w)) =
     saved (takeWhile (\<lambda>x. \<not> save_fails P x) (planned_groups P pre gs (tick w))) (rows w)"
  "isl (process_groups P pre gs w) \<longleftrightarrow>
     (\<exists>x \<in> set (planned_groups P pre gs (tick w)). save_fails P x)"
  by (rule process_groups_plan_all [THEN conjunct1]) (rule process_groups_plan_all [THEN conjunct2])

lemma deactivate_duplicates_throws:
  "deactivate_duplicates P pre ds w = Inl (e, w') \<Longrightarrow> e = StoreWriteFailure"
proof (induction ds arbitrary: w)
  case Nil
  then show ?case by simp
next
  case (Cons d ds)
  then show ?case
    by (auto simp: Let_def saveRecord_def split: if_splits sum.splits)
qed

lemma process_duplicates_throws:
  "process_duplicates P pre ds w = Inl (e, w') \<Longrightarrow> e = StoreWriteFailure"
  by (auto simp: process_duplicates_def Let_def saveRecord_def
      split: list.splits if_splits dest: deactivate_duplicates_throws)

lemma process_groups_throws:
  "process_groups P pre gs w = Inl (e, w') \<Longrightarrow> e = StoreWriteFailure"
proof (induction gs arbitrary: w)
  case Nil
  then show ?case by simp
next
  case (Cons g gs)
  obtain fp ds where g: "g = (fp, ds)" by (cases g)
  from Cons.prems show ?case
    by (auto simp: g split: if_splits sum.splits dest: process_duplicates_throws Cons.IH)
qed

lemma cleanup_job_plan:
  "rows (snd (cleanup_job P pre stats w)) =
     saved (takeWhile (\<lambda>x. \<not> save_fails P x) (planned_saves P pre w)) (rows w)"
  "fst (cleanup_job P pre stats w) = Caught TypeError \<longleftrightarrow>
     group_devices (allDevices w) [] = Inl TypeError"
  "fst (cleanup_job P pre stats w) = Caught StoreWriteFailure \<longleftrightarrow>
     (\<exists>x \<in> set (planned_saves P pre w). save_fails P x)"
  "fst (cleanup_job P pre stats w) = Completed \<longleftrightarrow>
     \<not> isl (group_devices (allDevices w) []) \<and> (\<forall>x \<in> set (planned_saves P pre w). \<not> save_fails P x)"
proof -
  let ?gs = "for_in (grouped (allDevices w) [])"
  show "rows (snd (cleanup_job P pre stats w)) =
     saved (takeWhile (\<lambda>x. \<not> save_fails P x) (planned_saves P pre w)) (rows w)"
    using process_groups_plan(1) [of P pre ?gs w]
    by (auto simp: rows_cleanup_job planned_saves_def group_devices_eq)
  have fst: "fst (cleanup_job P pre stats w) =
      (if isl (group_devices (allDevices w) []) then Caught TypeError
       else if isl (process_groups P pre ?gs w) then Caught StoreWriteFailure
       else Completed)"
  proof (cases "allDevices w = []")
    case True
    then show ?thesis by (simp add: cleanup_job_def for_in_def)
  next
    case False
    then show ?thesis
      by (cases "process_groups P pre ?gs w")
        (auto simp: cleanup_job_def group_devices_eq dest: process_groups_throws)
  qed
  show "fst (cleanup_job P pre stats w) = Caught TypeError \<longleftrightarrow>
     group_devices (allDevices w) [] = Inl TypeError"
    by (auto simp: fst group_devices_eq)
  show "fst (cleanup_job P pre stats w) = Caught StoreWriteFailure \<longleftrightarrow>
     (\<exists>x \<in> set (planned_saves P pre w). save_fails P x)"
    using process_groups_plan(2) [of P pre ?gs w]
    by (auto simp: fst planned_saves_def group_devices_eq)
  show "fst (cleanup_job P pre stats w) = Completed \<longleftrightarrow>
     \<not> isl (group_devices (allDevices w) []) \<and> (\<forall>x \<in> set (planned_saves P pre w). \<not> save_fails P x)"
    using process_groups_plan(2) [of P pre ?gs w]
    by (auto simp: fst planned_saves_def group_devices_eq)
qed

lemma archive_devices_plan_all:
  "rows (snd (archive_devices P ds w)) =
     saved (filter (\<lambda>x. \<not> save_fails P x) (planned_archive P ds (tick w))) (rows w)
   \<and> fst (archive_devices P ds w) = map ident (filter (save_fails P) (planned_archive P ds (tick w)))"
proof (induction ds arbitrary: w)
  case Nil
  show ?case by simp
next
  case (Cons d ds)
  let ?d = "archive P (clock P (tick w)) d"
  let ?w = "(ticked w)\<lparr>rows := upsert ?d (rows (ticked w))\<rparr>"
  have step: "archive_devices P (d # ds) w =
      (if save_fails P ?d
       then (ident d # fst (archive_devices P ds (ticked w)), snd (archive_devices P ds (ticked w)))
       else archive_devices P ds ?w)"
    by (simp add: Let_def saveRecord_def reading_def split: prod.splits)
  from Cons.IH [of ?w] Cons.IH [of "ticked w"] show ?case
    unfolding step by simp
qed

lemma archive_devices_plan:
  "rows (snd (archive_devices P ds w)) =
     saved (filter (\<lambda>x. \<not> save_fails P x) (planned_archive P ds (tick w))) (rows w)"
  "fst (archive_devices P ds w) = map ident (filter (save_fails P) (planned_archive P ds (tick w)))"
  by (rule archive_devices_plan_all [THEN conjunct1]) (rule archive_devices_plan_all [THEN conjunct2])

lemma monthly_cleanup_plan:
  "rows (snd (monthly_cleanup P w)) =
     saved (filter (\<lambda>x. \<not> save_fails P x) (planned_archives P w)) (rows w)"
  "fst (monthly_cleanup P w) = map ident (filter (save_fails P) (planned_archives P w))"
  using archive_devices_plan [of P "oldDevices (clock P (tick w) - ninety_days) (ticked w)" "ticked w"]
  by (auto simp: monthly_cleanup_def planned_archives_def Let_def reading_def
      oldDevices_def)

section \<open>What the daily sweep writes for the primary\<close>

lemma sort_by_activity_Nil: "sort_by_activity ds = [] \<longleftrightarrow> ds = []"
  unfolding sort_by_activity_def by (metis length_0_conv length_sort)

lemma process_duplicates_primary_written:
  assumes "\<forall>x. \<not> save_fails P x" and "distinct (map ident devices)" and "devices \<noteq> []"
  shows "keep_primary (clock P (tick w)) (hd (sort_by_activity devices))
           \<in> set (rows (final (process_duplicates P pre devices w)))"
proof (cases "sort_by_activity devices")
  case Nil
  with assms(3) show ?thesis by (simp add: sort_by_activity_Nil)
next
  case (Cons p dups)
  let ?p = "keep_primary (reading P w) p"
  let ?w = "(ticked w)\<lparr>rows := upsert ?p (rows (ticked w))\<rparr>"
  have step: "process_duplicates P pre devices w = deactivate_duplicates P pre dups ?w"
    using assms(1) Cons by (simp add: process_duplicates_def Let_def saveRecord_def)
  have "?p \<in> set (rows ?w)"
    by (simp add: upsert_has)
  moreover from sort_by_activity_Cons(2) [OF Cons assms(2)] have "ident ?p \<notin> ident ` set dups"
    by simp
  ultimately have "?p \<in> set (rows (final (deactivate_duplicates P pre dups ?w)))"
    by (rule deactivate_duplicates_keeps)
  then show ?thesis
    unfolding step by (simp add: Cons reading_def)
qed

lemma process_groups_primary_written:
  assumes "\<forall>x. \<not> save_fails P x"
  shows "distinct (map ident (concat (map snd gs))) \<Longrightarrow> (fp, ds) \<in> set gs \<Longrightarrow> 1 < length ds \<Longrightarrow>
         \<exists>k \<ge> tick w. keep_primary (clock P k) (hd (sort_by_activity ds))
           \<in> set (rows (final (process_groups P pre gs w)))"
proof (induction gs arbitrary: w)
  case Nil
  then show ?case by simp
next
  case (Cons g gs)
  obtain fp0 ds0 where g: "g = (fp0, ds0)" by (cases g)
  from Cons.prems(1) have d0: "distinct (map ident ds0)"
    and drest: "distinct (map ident (concat (map snd gs)))"
    and disj: "ident ` set ds0 \<inter> ident ` set (concat (map snd gs)) = {}"
    by (auto simp: g)
  obtain w' where w': "process_duplicates P pre ds0 w = Inr w'" "tick w \<le> tick w'"
    using process_duplicates_accepted [OF assms] by blast
  define w1 where "w1 = (if length ds0 \<le> 1 then w else w')"
  have step: "process_groups P pre (g # gs) w = process_groups P pre gs w1"
    by (simp add: g w' w1_def)
  have tick1: "tick w \<le> tick w1"
    using w' by (simp add: w1_def)
  from Cons.prems(2) consider (head) "fp = fp0" "ds = ds0" | (tail) "(fp, ds) \<in> set gs"
    by (auto simp: g)
  then show ?case
  proof cases
    case head
    let ?p = "keep_primary (clock P (tick w)) (hd (sort_by_activity ds))"
    from head Cons.prems(3) have w1: "w1 = final (process_duplicates P pre ds0 w)"
      by (simp add: w1_def w')
    from head Cons.prems(3) have ne: "ds0 \<noteq> []"
      by auto
    from process_duplicates_primary_written [OF assms d0 ne, of w pre] head
    have k: "?p \<in> set (rows w1)"
      unfolding w1 by simp
    from ne have "sort_by_activity ds0 \<noteq> []"
      by (simp add: sort_by_activity_Nil)
    then have "hd (sort_by_activity ds0) \<in> set (sort_by_activity ds0)"
      by (rule hd_in_set)
    then have "hd (sort_by_activity ds0) \<in> set ds0"
      by (simp add: sort_by_activity_def)
    with disj head have "ident ?p \<notin> ident ` set ds'" if "(fp', ds') \<in> set gs" for fp' ds'
      using that by force
    then have "?p \<in> set (rows (final (process_groups P pre gs w1)))"
      by (intro process_groups_keeps [OF k]) simp
    then show ?thesis
      unfolding step by blast
  next
    case tail
    from Cons.IH [OF drest tail Cons.prems(3), of w1] tick1 show ?thesis
      unfolding step by (meson le_trans)
  qed
qed

lemma cleanup_job_primary_written:
  assumes "\<forall>x. \<not> save_fails P x" and "distinct (map ident (rows w))"
    and "group_devices (allDevices w) [] = Inr gs"
    and "(fp, ds) \<in> set gs" and "1 < length ds"
  shows "\<exists>k \<ge> tick w. keep_primary (clock P k) (hd (sort_by_activity ds))
           \<in> set (rows (snd (cleanup_job P pre stats w)))"
proof -
  from assms(3) have gs: "gs = grouped (allDevices w) []"
    by (rule group_devices_Inr)
  have "distinct (map ident (concat (map snd (for_in gs))))"
    unfolding gs using distinct_allDevices [OF assms(2)] by (rule distinct_for_in_members)
  moreover from assms(4) have "(fp, ds) \<in> set (for_in gs)"
    by simp
  ultimately show ?thesis
    using process_groups_primary_written [OF assms(1) _ _ assms(5), of "for_in gs" fp w pre] assms(3)
    by (simp add: rows_cleanup_job gs)
qed

section \<open>A second application of the daily sweep\<close>

lemma transition_fields [simp]:
  "active (keep_primary t d)"
  "session_status (keep_primary t d) = (if truthy (current_user_id d) then ''active'' else ''logged_out'')"
  "current_user_id (keep_primary t d) = current_user_id d"
  "last_activity (keep_primary t d) = Some t"
  "device_fingerprint (keep_primary t d) = device_fingerprint d"
  "\<not> active (deactivate P pre t t' d)"
  "session_status (deactivate P pre t t' d) = ''logged_out''"
  "last_activity (deactivate P pre t t' d) = Some t"
  "device_fingerprint (deactivate P pre t t' d) = device_fingerprint d"
  by (simp_all add: keep_primary_def deactivate_def)







text \<open>A table of at most 500 rows is queried whole.\<close>

lemma mset_sort_desc [simp]: "mset (sort_desc f xs) = mset xs"
  by (simp add: sort_desc_def)

lemma length_sort_desc [simp]: "length (sort_desc f xs) = length xs"
  by (simp add: sort_desc_def)
















section \<open>The creation hooks merge before they delete\<close>

text \<open>
  C7. In a creation hook, when an existing record is selected as primary instead of the
  new one, the new record's user id is written onto that record, which is activated and
  stamped, and the record is saved; only after that save is the new record deleted. If
  the store refuses the save, the hook stops and the new record is not removed; if it
  accepts it, the merged record is in the table when the hook ends, and the new record
  is gone unless the store refuses the deletion.
\<close>

theorem user_merged_before_removal:
  assumes "truthy (device_fingerprint newDevice)"
    and "existingDevices newDevice w \<noteq> []"
    and "ident (primaryDevice P newDevice (existingDevices newDevice w) w) \<noteq> ident newDevice"
  shows "let w0 = snd (primaryActivity P newDevice w);
             winner = primaryDevice P newDevice (existingDevices newDevice w) w;
             merged = merge_user (user_id newDevice) (reading P w0) (reading P (ticked w0)) winner;
             after = snd (onRecordAfterCreateSuccess P newDevice w)
         in winner \<in> set (existingDevices newDevice w)
          \<and> ident merged = ident winner
          \<and> user_id merged = user_id newDevice
          \<and> current_user_id merged = user_id newDevice
          \<and> active merged
          \<and> session_status merged = ''active''
          \<and> last_activity merged = Some (reading P w0)
          \<and> (save_fails P merged \<longrightarrow> rows after = rows w)
          \<and> (\<not> save_fails P merged \<longrightarrow> merged \<in> set (rows after))
          \<and> (\<not> save_fails P merged \<and> delete_fails P newDevice \<longrightarrow> rows after = upsert merged (rows w))
          \<and> (\<not> save_fails P merged \<and> \<not> delete_fails P newDevice \<longrightarrow>
                ident newDevice \<notin> ident ` set (rows after))
          \<and> onRecordAfterCreateRequest P newDevice w = onRecordAfterCreateSuccess P newDevice w"
proof -
  define w0 where "w0 = snd (primaryActivity P newDevice w)"
  define existing where "existing = existingDevices newDevice w"
  define winner where "winner = primaryDevice P newDevice existing w"
  define merged where
    "merged = merge_user (user_id newDevice) (reading P w0) (reading P (ticked w0)) winner"
  define others where "others = filter (\<lambda>d. ident d \<noteq> ident winner) existing"
  define w2 where "w2 = ticked (ticked w0)"
  define w3 where "w3 = w2\<lparr>rows := upsert merged (rows w2)\<rparr>"
  define w4 where "w4 = w3\<lparr>rows := filter (\<lambda>r. ident r \<noteq> ident newDevice) (rows w3)\<rparr>"
  have diff: "ident winner \<noteq> ident newDevice"
    using assms(3) by (simp add: winner_def existing_def)
  have rows2: "rows w2 = rows w"
    by (simp add: w2_def w0_def)
  have after: "snd (onRecordAfterCreateSuccess P newDevice w)
      = final (cleanup_duplicates P newDevice existing w)"
    using assms(1,2) by (simp add: onRecordAfterCreateSuccess_def snd_device_hook existing_def)
  have settle: "settle_primary P newDevice winner w0 =
      (case saveRecord P merged w2 of Inl e \<Rightarrow> Inl e | Inr w3 \<Rightarrow> deleteRecord P newDevice w3)"
    using diff by (simp add: settle_primary_def Let_def merged_def w2_def)
  have body: "cleanup_duplicates P newDevice existing w =
      (case settle_primary P newDevice winner w0 of Inl e \<Rightarrow> Inl e
       | Inr w1 \<Rightarrow> deactivate_others P others w1)"
    unfolding cleanup_duplicates_def winner_def w0_def others_def ..
  have in_existing: "winner \<in> set existing"
    using primaryDevice_in [of P newDevice existing w] diff by (auto simp: winner_def)
  have fields: "ident merged = ident winner" "user_id merged = user_id newDevice"
    "current_user_id merged = user_id newDevice" "active merged"
    "session_status merged = ''active''" "last_activity merged = Some (reading P w0)"
    by (simp_all add: merged_def merge_user_def)
  have refused: "rows (final (cleanup_duplicates P newDevice existing w)) = rows w"
    if "save_fails P merged"
    using that by (simp add: body settle saveRecord_def rows2)
  have kept: "rows (final (cleanup_duplicates P newDevice existing w)) = upsert merged (rows w)"
    if "\<not> save_fails P merged" "delete_fails P newDevice"
    using that by (simp add: body settle saveRecord_def deleteRecord_def rows2)
  have not_new: "ident newDevice \<notin> ident ` set existing"
    using existingDevices_subset [of newDevice w] by (auto simp: existing_def same_fingerprint_def)
  have others_ids: "ident merged \<notin> ident ` set others" "ident newDevice \<notin> ident ` set others"
    using not_new by (auto simp: others_def fields)
  have stays: "merged \<in> set (rows (final (cleanup_duplicates P newDevice existing w)))"
    if ok: "\<not> save_fails P merged"
  proof (cases "delete_fails P newDevice")
    case True
    with ok kept show ?thesis by (simp add: upsert_has)
  next
    case False
    have "merged \<in> set (rows w4)"
      using diff by (simp add: w4_def w3_def upsert_has fields)
    from deactivate_others_keeps [OF this others_ids(1)] ok False show ?thesis
      by (simp add: body settle saveRecord_def deleteRecord_def w3_def w4_def)
  qed
  have gone: "ident newDevice \<notin> ident ` set (rows (final (cleanup_duplicates P newDevice existing w)))"
    if ok: "\<not> save_fails P merged" "\<not> delete_fails P newDevice"
  proof -
    have "ident newDevice \<notin> ident ` set (rows w4)"
      by (auto simp: w4_def)
    with deactivate_others_idents [of P others w4] others_ids(2)
    have "ident newDevice \<notin> ident ` set (rows (final (deactivate_others P others w4)))"
      by blast
    with ok show ?thesis
      by (simp add: body settle saveRecord_def deleteRecord_def w3_def w4_def)
  qed
  have same: "onRecordAfterCreateRequest P newDevice w = onRecordAfterCreateSuccess P newDevice w"
    by (simp add: onRecordAfterCreateRequest_def onRecordAfterCreateSuccess_def)
  from in_existing fields refused kept stays gone same show ?thesis
    unfolding Let_def after
    unfolding existing_def winner_def merged_def w0_def
    by (intro conjI impI) (simp_all add: existing_def winner_def merged_def w0_def)
qed

theorem user_merged_before_removal_witness:
  "truthy (device_fingerprint (dev ''b'' (Some ''F1'') True (Some ''u2'') (Some 5) (Some 7) (Some 0)))
   \<and> existingDevices (dev ''b'' (Some ''F1'') True (Some ''u2'') (Some 5) (Some 7) (Some 0)) pair_and_stray \<noteq> []
   \<and> ident (primaryDevice ticking (dev ''b'' (Some ''F1'') True (Some ''u2'') (Some 5) (Some 7) (Some 0))
        (existingDevices (dev ''b'' (Some ''F1'') True (Some ''u2'') (Some 5) (Some 7) (Some 0)) pair_and_stray)
        pair_and_stray) = ''a''
   \<and> ''b'' \<notin> ident ` set (rows (snd (onRecordAfterCreateSuccess ticking
        (dev ''b'' (Some ''F1'') True (Some ''u2'') (Some 5) (Some 7) (Some 0)) pair_and_stray)))"
proof -
  let ?a = "dev ''a'' (Some ''F1'') True (Some ''u1'') (Some 10) (Some 1) (Some 0)"
  let ?b = "dev ''b'' (Some ''F1'') True (Some ''u2'') (Some 5) (Some 7) (Some 0)"
  have h1: "truthy (device_fingerprint ?b)"
    by (simp add: truthy_def dev_def)
  have ex: "existingDevices ?b pair_and_stray = [?a]"
    by (simp add: existingDevices_def findRecordsByFilter_def pair_and_stray_def dev_def
        same_fingerprint_def by_activity_used_def sort_desc_def)
  have h2: "existingDevices ?b pair_and_stray \<noteq> []"
    by (simp add: ex)
  have win: "primaryDevice ticking ?b (existingDevices ?b pair_and_stray) pair_and_stray = ?a"
    unfolding ex by (simp add: primaryDevice_def primaryActivity_def deviceActivity_def dev_def)
  have h3: "ident (primaryDevice ticking ?b (existingDevices ?b pair_and_stray) pair_and_stray) \<noteq> ident ?b"
    unfolding win by (simp add: dev_def)
  have ok: "\<not> save_fails ticking d" "\<not> delete_fails ticking d" for d
    by (simp_all add: ticking_def)
  from user_merged_before_removal [OF h1 h2 h3] ok
  have "ident ?b \<notin> ident ` set (rows (snd (onRecordAfterCreateSuccess ticking ?b pair_and_stray)))"
    unfolding Let_def by blast
  moreover have "ident ?a = ''a''" "ident ?b = ''b''"
    by (simp_all add: dev_def)
  ultimately show ?thesis
    using h1 h2 win by simp
qed

text \<open>
  C6, as the code has it. The batch passes (the daily sweep, its test copy, the
  two-minute test sweep, the monthly archival) delete nothing: every id of the table is
  in the table after the pass. A creation hook deletes at most the newly created record,
  and not even that one when the new record is itself selected as primary.
\<close>

theorem only_the_new_record_is_deleted:
  "ident ` set (rows w) \<subseteq> ident ` set (rows (snd (device_cleanup P w)))
   \<and> ident ` set (rows w) \<subseteq> ident ` set (rows (snd (test_device_cleanup P w)))
   \<and> ident ` set (rows w) \<subseteq> ident ` set (rows (snd (simple_test P w)))
   \<and> ident ` set (rows w) \<subseteq> ident ` set (rows (snd (monthly_cleanup P w)))
   \<and> ident ` set (rows w) - {ident newDevice}
        \<subseteq> ident ` set (rows (snd (onRecordAfterCreateSuccess P newDevice w)))
   \<and> ident ` set (rows w) - {ident newDevice}
        \<subseteq> ident ` set (rows (snd (onRecordAfterCreateRequest P newDevice w)))
   \<and> (ident (primaryDevice P newDevice (existingDevices newDevice w) w) = ident newDevice \<longrightarrow>
        ident ` set (rows w) \<subseteq> ident ` set (rows (snd (onRecordAfterCreateSuccess P newDevice w))))"
proof -
  have sweep: "ident ` set (rows w) \<subseteq> ident ` set (rows (snd (cleanup_job P pre stats w)))"
    for pre stats
    using process_groups_grows [of w P pre] by (simp add: rows_cleanup_job)
  have simple: "ident ` set (rows w) \<subseteq> ident ` set (rows (snd (simple_test P w)))"
    using check_duplicates_grows [of w P] by (simp add: rows_simple_test)
  have monthly: "ident ` set (rows w) \<subseteq> ident ` set (rows (snd (monthly_cleanup P w)))"
    using archive_devices_grows [of "ticked w" P] by (simp add: monthly_cleanup_def Let_def)
  have hook: "ident ` set (rows w) - {ident newDevice}
      \<subseteq> ident ` set (rows (snd (device_hook P newDevice w)))"
    using cleanup_duplicates_grows(1) [of w newDevice P] by (auto simp: snd_device_hook)
  have own: "ident ` set (rows w) \<subseteq> ident ` set (rows (snd (device_hook P newDevice w)))"
    if "ident (primaryDevice P newDevice (existingDevices newDevice w) w) = ident newDevice"
    using cleanup_duplicates_grows(2) [OF that] by (simp add: snd_device_hook)
  from sweep simple monthly hook own show ?thesis
    by (simp add: device_cleanup_def test_device_cleanup_def
        onRecordAfterCreateSuccess_def onRecordAfterCreateRequest_def)
qed

theorem only_the_new_record_is_deleted_witness:
  "ident (primaryDevice ticking (dev ''n'' (Some ''F1'') True (Some ''u9'') None (Some 20) (Some 20))
      (existingDevices (dev ''n'' (Some ''F1'') True (Some ''u9'') None (Some 20) (Some 20)) pair_and_stray)
      pair_and_stray) = ident (dev ''n'' (Some ''F1'') True (Some ''u9'') None (Some 20) (Some 20))
   \<and> ident ` set (rows pair_and_stray)
       \<subseteq> ident ` set (rows (snd (onRecordAfterCreateSuccess ticking
            (dev ''n'' (Some ''F1'') True (Some ''u9'') None (Some 20) (Some 20)) pair_and_stray)))"
proof -
  let ?n = "dev ''n'' (Some ''F1'') True (Some ''u9'') None (Some 20) (Some 20)"
  have ex: "existingDevices ?n pair_and_stray =
      [dev ''a'' (Some ''F1'') True (Some ''u1'') (Some 10) (Some 1) (Some 0),
       dev ''b'' (Some ''F1'') True (Some ''u2'') (Some 5) (Some 7) (Some 0)]"
    by (simp add: existingDevices_def findRecordsByFilter_def pair_and_stray_def dev_def
        same_fingerprint_def by_activity_used_def sort_desc_def)
  have h: "ident (primaryDevice ticking ?n (existingDevices ?n pair_and_stray) pair_and_stray) = ident ?n"
    unfolding ex by (simp add: primaryDevice_def primaryActivity_def deviceActivity_def dev_def)
  from only_the_new_record_is_deleted [of pair_and_stray ticking ?n] h show ?thesis
    by blast
qed

theorem hook_deletes_new_record:
  "map ident (rows pair_and_stray) = [''a'', ''b'', ''c'']
   \<and> map ident (rows (snd (onRecordAfterCreateSuccess ticking
        (dev ''b'' (Some ''F1'') True (Some ''u2'') (Some 5) (Some 7) (Some 0)) pair_and_stray)))
     = [''a'', ''c'']"
  by code_simp

lemma archive_devices_archived:
  assumes "\<forall>x \<in> set (rows w). ident x = i \<longrightarrow> session_status x = ''archived''"
  shows "\<forall>x \<in> set (rows (snd (archive_devices P ds w))). ident x = i \<longrightarrow> session_status x = ''archived''"
  using assms
proof (induction ds arbitrary: w)
  case Nil
  then show ?case by simp
next
  case (Cons d ds)
  let ?d = "archive P (reading P w) d"
  have arch: "session_status ?d = ''archived''"
    by (simp add: archive_def)
  show ?case
  proof (cases rule: saveRecord_cases [of P ?d "ticked w"])
    case refused
    with Cons.IH [of "ticked w"] Cons.prems show ?thesis
      by (auto simp: Let_def split: prod.splits)
  next
    case saved
    from Cons.prems arch
    have "\<forall>x \<in> set (rows (ticked w\<lparr>rows := upsert ?d (rows (ticked w))\<rparr>)).
        ident x = i \<longrightarrow> session_status x = ''archived''"
      by (auto simp: upsert_def)
    from Cons.IH [OF this] saved show ?thesis
      by (simp add: Let_def)
  qed
qed

text \<open>
  C8, as the code has it. The monthly archival leaves an archived record archived. The
  sweeps and the hooks have no test for \<open>archived\<close>: they leave an archived record as
  it is when no other record of the table carries its fingerprint. In the daily sweep,
  when the grouping does not throw and the store accepts every save, an archived record
  of a group of more than one device is written as any other member: when it is the
  first of the sorted group, it is in the table after the pass with \<open>active = true\<close>,
  \<open>session_status\<close> \<open>active\<close> if it has a current user and \<open>logged_out\<close> if not, and
  \<open>last_activity\<close> a reading of the clock taken during the pass; when it is not the
  first, it is there with \<open>active = false\<close>, \<open>session_status = logged_out\<close>, no current
  user, no session start, a new \<open>last_activity\<close> and the note of the job.
  The table has one row per id, and the hooks run for a record that is in the table.
\<close>

theorem archived_kept_outside_duplicate_groups:
  assumes "distinct (map ident (rows w))"
    and "r \<in> set (rows w)"
    and "session_status r = ''archived''"
    and "newDevice \<in> set (rows w)"
  shows "(\<forall>x \<in> set (rows (snd (monthly_cleanup P w))).
            ident x = ident r \<longrightarrow> session_status x = ''archived'')
       \<and> ((\<forall>d \<in> set (rows w). device_fingerprint d = device_fingerprint r \<longrightarrow> d = r) \<longrightarrow>
            r \<in> set (rows (snd (device_cleanup P w)))
          \<and> r \<in> set (rows (snd (test_device_cleanup P w)))
          \<and> r \<in> set (rows (snd (simple_test P w)))
          \<and> r \<in> set (rows (snd (onRecordAfterCreateSuccess P newDevice w)))
          \<and> r \<in> set (rows (snd (onRecordAfterCreateRequest P newDevice w))))
       \<and> ((\<forall>x. \<not> save_fails P x) \<longrightarrow>
           (\<forall>gs. group_devices (allDevices w) [] = Inr gs \<longrightarrow>
             (\<forall>g \<in> set gs. 1 < length (snd g) \<and> r \<in> set (snd g) \<longrightarrow>
                (r = hd (sort_by_activity (snd g)) \<longrightarrow>
                   (\<exists>k \<ge> tick w.
                      r\<lparr>active := True,
                        session_status := (if truthy (current_user_id r) then ''active'' else ''logged_out''),
                        last_activity := Some (clock P k)\<rparr>
                      \<in> set (rows (snd (device_cleanup P w)))))
              \<and> (r \<noteq> hd (sort_by_activity (snd g)) \<longrightarrow>
                   (\<exists>k \<ge> tick w.
                      r\<lparr>active := False, session_status := ''logged_out'',
                        last_activity := Some (clock P k),
                        current_user_id := None, current_session_start := None,
                        device_notes :=
                          append_note (device_notes r)
                            (''Deactivated by cleanup job on '' @ toISOString P (clock P (Suc k)))\<rparr>
                      \<in> set (rows (snd (device_cleanup P w))))))))"
proof -
  have "\<forall>x \<in> set (rows (ticked w)). ident x = ident r \<longrightarrow> session_status x = ''archived''"
    using assms(1-3) same_ident by fastforce
  from archive_devices_archived [OF this] this
  have monthly: "\<forall>x \<in> set (rows (snd (monthly_cleanup P w))).
      ident x = ident r \<longrightarrow> session_status x = ''archived''"
    by (simp add: monthly_cleanup_def Let_def)
  have rest: "r \<in> set (rows (snd (cleanup_job P pre stats w)))"
      "r \<in> set (rows (snd (simple_test P w)))"
      "r \<in> set (rows (snd (device_hook P newDevice w)))"
    if alone: "\<forall>d \<in> set (rows w). device_fingerprint d = device_fingerprint r \<longrightarrow> d = r" for pre stats
  proof -
    from alone have lone: "\<And>d. d \<in> set (rows w) \<Longrightarrow> device_fingerprint d = device_fingerprint r \<Longrightarrow> d = r"
      by blast
    show "r \<in> set (rows (snd (cleanup_job P pre stats w)))"
      using lone_record_in_no_duplicate_group
        [OF distinct_allDevices [OF assms(1)] allDevices_subset assms(1,2) lone]
      by (intro cleanup_job_keeps_single [OF assms(2)]) blast
    show "r \<in> set (rows (snd (simple_test P w)))"
      using lone_record_in_no_duplicate_group
        [OF distinct_devices_found [OF assms(1)] devices_found_subset assms(1,2) lone]
      by (intro simple_test_keeps_single [OF assms(2)]) blast
    have ex: "ident r \<notin> ident ` set (existingDevices newDevice w)"
    proof
      assume "ident r \<in> ident ` set (existingDevices newDevice w)"
      then obtain d where d: "d \<in> set (existingDevices newDevice w)" "ident d = ident r"
        by auto
      with existingDevices_subset [of newDevice w]
      have "d \<in> set (rows w)" "same_fingerprint newDevice d" by auto
      with d assms(1,2) have "d = r" using same_ident by blast
      with \<open>same_fingerprint newDevice d\<close> assms(4) lone [of newDevice] show False
        by (auto simp: same_fingerprint_def)
    qed
    show "r \<in> set (rows (snd (device_hook P newDevice w)))"
    proof (cases "ident r = ident newDevice")
      case False
      with assms(2) ex show ?thesis by (intro device_hook_keeps) auto
    next
      case True
      with assms(1,2,4) have "newDevice = r" using same_ident by blast
      have "existingDevices newDevice w = []"
      proof (rule ccontr)
        assume "existingDevices newDevice w \<noteq> []"
        then obtain d where "d \<in> set (existingDevices newDevice w)"
          by (cases "existingDevices newDevice w") auto
        with existingDevices_subset [of newDevice w]
        have "d \<in> set (rows w)" "same_fingerprint newDevice d" by auto
        with lone [of d] \<open>newDevice = r\<close> show False
          by (auto simp: same_fingerprint_def)
      qed
      with assms(2) show ?thesis by (simp add: snd_device_hook)
    qed
  qed
  have first: "\<exists>k \<ge> tick w.
        r\<lparr>active := True,
          session_status := (if truthy (current_user_id r) then ''active'' else ''logged_out''),
          last_activity := Some (clock P k)\<rparr>
        \<in> set (rows (snd (device_cleanup P w)))"
    if ok: "\<forall>x. \<not> save_fails P x" and gs: "group_devices (allDevices w) [] = Inr gs"
      and g: "g \<in> set gs" "1 < length (snd g)" and hd: "r = hd (sort_by_activity (snd g))"
    for gs g
  proof -
    from g(1) have mem: "(fst g, snd g) \<in> set gs"
      by simp
    from cleanup_job_primary_written [OF ok assms(1) gs mem g(2), of "[]" True] hd
    show ?thesis
      by (simp add: device_cleanup_def keep_primary_def)
  qed
  have other: "\<exists>k \<ge> tick w.
        r\<lparr>active := False, session_status := ''logged_out'',
          last_activity := Some (clock P k),
          current_user_id := None, current_session_start := None,
          device_notes :=
            append_note (device_notes r)
              (''Deactivated by cleanup job on '' @ toISOString P (clock P (Suc k)))\<rparr>
        \<in> set (rows (snd (device_cleanup P w)))"
    if ok: "\<forall>x. \<not> save_fails P x" and gs: "group_devices (allDevices w) [] = Inr gs"
      and g: "g \<in> set gs" "1 < length (snd g)" "r \<in> set (snd g)"
      and hd: "r \<noteq> hd (sort_by_activity (snd g))"
    for gs g
  proof -
    from g(1) have mem: "(fst g, snd g) \<in> set gs"
      by simp
    from g(3) have "r \<in> set (sort_by_activity (snd g))"
      by (simp add: sort_by_activity_def)
    with hd have "r \<in> set (tl (sort_by_activity (snd g)))"
      by (cases "sort_by_activity (snd g)") auto
    from cleanup_job_written [OF ok assms(1) gs mem g(2) this, of "[]" True]
    show ?thesis
      by (simp add: device_cleanup_def deactivate_def cleanupNote_def)
  qed
  from monthly rest first other show ?thesis
    unfolding device_cleanup_def test_device_cleanup_def
      onRecordAfterCreateSuccess_def onRecordAfterCreateRequest_def
    by (intro conjI impI allI ballI; (elim conjE)?) (assumption | blast)+
qed

theorem archived_kept_outside_duplicate_groups_witness:
  "distinct (map ident (rows archived_pair))
   \<and> (dev ''z'' (Some ''F3'') False None (Some 1) None (Some 0))\<lparr>session_status := ''archived''\<rparr>
        \<in> set (rows archived_pair)
   \<and> dev ''x'' (Some ''F2'') True (Some ''u1'') (Some 10) None (Some 0) \<in> set (rows archived_pair)
   \<and> (dev ''z'' (Some ''F3'') False None (Some 1) None (Some 0))\<lparr>session_status := ''archived''\<rparr>
        \<in> set (rows (snd (device_cleanup ticking archived_pair)))
   \<and> (dev ''z'' (Some ''F3'') False None (Some 1) None (Some 0))\<lparr>session_status := ''archived''\<rparr>
        \<in> set (rows (snd (onRecordAfterCreateSuccess ticking
              (dev ''x'' (Some ''F2'') True (Some ''u1'') (Some 10) None (Some 0)) archived_pair)))
   \<and> (\<exists>k \<ge> tick archived_pair.
        \<lparr>ident = ''y'', device_fingerprint = Some ''F2'', user_id = None, current_user_id = None,
         active = False, session_status = ''logged_out'', last_activity = Some (clock ticking k),
         last_used = None, created = Some 0, current_session_start = None,
         device_notes = Some (''Deactivated by cleanup job on '' @ toISOString ticking (clock ticking (Suc k)))\<rparr>
        \<in> set (rows (snd (device_cleanup ticking archived_pair))))"
proof -
  let ?z = "(dev ''z'' (Some ''F3'') False None (Some 1) None (Some 0))\<lparr>session_status := ''archived''\<rparr>"
  let ?y = "(dev ''y'' (Some ''F2'') False None (Some 1) None (Some 0))\<lparr>session_status := ''archived''\<rparr>"
  let ?x = "dev ''x'' (Some ''F2'') True (Some ''u1'') (Some 10) None (Some 0)"
  have h1: "distinct (map ident (rows archived_pair))"
    by (simp add: archived_pair_def dev_def)
  have h2: "?z \<in> set (rows archived_pair)"
    by (simp add: archived_pair_def)
  have h3: "session_status ?z = ''archived''"
    by simp
  have h4: "?x \<in> set (rows archived_pair)"
    by (simp add: archived_pair_def)
  have alone: "\<forall>d \<in> set (rows archived_pair). device_fingerprint d = device_fingerprint ?z \<longrightarrow> d = ?z"
    by (simp add: archived_pair_def dev_def)
  have y2: "?y \<in> set (rows archived_pair)"
    by (simp add: archived_pair_def)
  have y3: "session_status ?y = ''archived''"
    by simp
  have ok: "\<forall>x. \<not> save_fails ticking x"
    by (simp add: ticking_def)
  have grp: "group_devices (allDevices archived_pair) [] = Inr [(''F2'', [?x, ?y]), (''F3'', [?z])]"
    by (simp add: allDevices_def findRecordsByFilter_def by_activity_used_created_def
        sort_desc_def archived_pair_def dev_def inherited_names_def)
  have mem: "(''F2'', [?x, ?y]) \<in> set [(''F2'', [?x, ?y]), (''F3'', [?z])]"
    by simp
  have len: "1 < length (snd (''F2'', [?x, ?y])) \<and> ?y \<in> set (snd (''F2'', [?x, ?y]))"
    by simp
  have los: "?y \<noteq> hd (sort_by_activity (snd (''F2'', [?x, ?y])))"
    by (simp add: sort_by_activity_def activity_def dev_def)
  from archived_kept_outside_duplicate_groups
    [OF h1 y2 y3 h4, of ticking, THEN conjunct2, THEN conjunct2, THEN mp, OF ok,
     rule_format, OF grp mem len, THEN conjunct2, THEN mp, OF los]
  have "\<exists>k \<ge> tick archived_pair.
        \<lparr>ident = ''y'', device_fingerprint = Some ''F2'', user_id = None, current_user_id = None,
         active = False, session_status = ''logged_out'', last_activity = Some (clock ticking k),
         last_used = None, created = Some 0, current_session_start = None,
         device_notes = Some (''Deactivated by cleanup job on '' @ toISOString ticking (clock ticking (Suc k)))\<rparr>
        \<in> set (rows (snd (device_cleanup ticking archived_pair)))"
    by (simp add: dev_def append_note_def)
  with archived_kept_outside_duplicate_groups
    [OF h1 h2 h3 h4, of ticking, THEN conjunct2, THEN conjunct1, THEN mp, OF alone] h1 h2 h4
  show ?thesis by (intro conjI) simp_all
qed

theorem sweep_resets_archived:
  "session_status (rows archived_pair ! 1) = ''archived''
   \<and> ident (rows (snd (device_cleanup ticking archived_pair)) ! 1) = ident (rows archived_pair ! 1)
   \<and> session_status (rows (snd (device_cleanup ticking archived_pair)) ! 1) = ''logged_out''
   \<and> session_status (rows archived_first ! 0) = ''archived''
   \<and> ident (rows (snd (device_cleanup ticking archived_first)) ! 0) = ident (rows archived_first ! 0)
   \<and> session_status (rows (snd (device_cleanup ticking archived_first)) ! 0) = ''active''
   \<and> active (rows (snd (device_cleanup ticking archived_first)) ! 0) = True
   \<and> session_status (rows archived_first ! 2) = ''archived''
   \<and> ident (rows (snd (device_cleanup ticking archived_first)) ! 2) = ident (rows archived_first ! 2)
   \<and> session_status (rows (snd (device_cleanup ticking archived_first)) ! 2) = ''logged_out''
   \<and> active (rows (snd (device_cleanup ticking archived_first)) ! 2) = True"
  by code_simp

text \<open>
  C4, as the code has it. When no fingerprint among the queried records is the name of
  an inherited object property, so that the grouping does not throw, and the store
  accepts every save: in the daily sweep every member but the first of a sorted group of
  more than one device is in the table after the pass with \<open>active = false\<close>,
  \<open>session_status = logged_out\<close>, no current user, no session start, \<open>last_activity\<close> a
  reading of the clock taken during the pass, and the note
  \<open>Deactivated by cleanup job on <time>\<close> (the next reading) appended to its notes after
  \<open>; \<close>, or set as the notes when there were none; its other fields are as they were. The
  test copy writes the note with \<open>TEST: \<close> in front. The two-minute test sweep writes
  \<open>active\<close>, \<open>session_status\<close> and \<open>last_activity\<close> only, and so do the creation hooks, which
  build no dictionary, when the store also accepts the deletion, for every existing
  device but the primary. When a queried record has such a fingerprint, the grouping
  throws a \<open>TypeError\<close>, the pass catches it and the table and the clock are as they were.
  The table has one row per id.
\<close>

theorem loser_transition:
  assumes "\<forall>x. \<not> save_fails P x" and "distinct (map ident (rows w))"
  shows "(\<forall>gs. group_devices (allDevices w) [] = Inr gs \<longrightarrow>
          (\<forall>g \<in> set gs. 1 < length (snd g) \<longrightarrow>
           (\<forall>d \<in> set (tl (sort_by_activity (snd g))). \<exists>k \<ge> tick w.
              d\<lparr>active := False, session_status := ''logged_out'',
                last_activity := Some (clock P k),
                current_user_id := None, current_session_start := None,
                device_notes :=
                  append_note (device_notes d)
                    (''Deactivated by cleanup job on '' @ toISOString P (clock P (Suc k)))\<rparr>
              \<in> set (rows (snd (device_cleanup P w))))))
       \<and> (\<forall>gs. group_devices (allDevices w) [] = Inr gs \<longrightarrow>
          (\<forall>g \<in> set gs. 1 < length (snd g) \<longrightarrow>
           (\<forall>d \<in> set (tl (sort_by_activity (snd g))). \<exists>k \<ge> tick w.
              d\<lparr>active := False, session_status := ''logged_out'',
                last_activity := Some (clock P k),
                current_user_id := None, current_session_start := None,
                device_notes :=
                  append_note (device_notes d)
                    (''TEST: Deactivated by cleanup job on '' @ toISOString P (clock P (Suc k)))\<rparr>
              \<in> set (rows (snd (test_device_cleanup P w))))))
       \<and> (\<forall>gs. group_devices (devices_found w) [] = Inr gs \<longrightarrow>
          (\<forall>g \<in> set gs. 1 < length (snd g) \<longrightarrow>
           (\<forall>d \<in> set (tl (sort_by_activity_simple (snd g))). \<exists>k \<ge> tick w.
              d\<lparr>active := False, session_status := ''logged_out'', last_activity := Some (clock P k)\<rparr>
              \<in> set (rows (snd (simple_test P w))))))
       \<and> (truthy (device_fingerprint newDevice) \<and> (\<forall>x. \<not> delete_fails P x) \<longrightarrow>
           (\<forall>d \<in> set (existingDevices newDevice w).
              ident d \<noteq> ident (primaryDevice P newDevice (existingDevices newDevice w) w) \<longrightarrow>
              (\<exists>k \<ge> tick w.
                 d\<lparr>active := False, session_status := ''logged_out'', last_activity := Some (clock P k)\<rparr>
                 \<in> set (rows (snd (onRecordAfterCreateSuccess P newDevice w))))))
       \<and> ((\<exists>d \<in> set (allDevices w). \<exists>fp \<in> set inherited_names. device_fingerprint d = Some fp) \<longrightarrow>
            device_cleanup P w = (Caught TypeError, w)
            \<and> test_device_cleanup P w = (Caught TypeError, w))
       \<and> ((\<exists>d \<in> set (devices_found w). \<exists>fp \<in> set inherited_names. device_fingerprint d = Some fp) \<longrightarrow>
            simple_test P w = (Caught TypeError, w))
       \<and> ((\<exists>gs. group_devices xs [] = Inr gs) \<longleftrightarrow>
            \<not> (\<exists>d \<in> set xs. \<exists>fp \<in> set inherited_names. device_fingerprint d = Some fp))
       \<and> append_note None note = Some note
       \<and> append_note (Some []) note = Some note
       \<and> (e \<noteq> [] \<longrightarrow> append_note (Some e) note = Some (e @ ''; '' @ note))"
proof (intro conjI ballI impI allI)
  fix gs g d
  assume gs: "group_devices (allDevices w) [] = Inr gs"
    and g: "g \<in> set gs" "1 < length (snd g)"
    and d: "d \<in> set (tl (sort_by_activity (snd g)))"
  from g(1) have mem: "(fst g, snd g) \<in> set gs"
    by simp
  from cleanup_job_written [OF assms gs mem g(2) d, of "[]" True]
  show "\<exists>k \<ge> tick w.
      d\<lparr>active := False, session_status := ''logged_out'',
        last_activity := Some (clock P k),
        current_user_id := None, current_session_start := None,
        device_notes :=
          append_note (device_notes d)
            (''Deactivated by cleanup job on '' @ toISOString P (clock P (Suc k)))\<rparr>
      \<in> set (rows (snd (device_cleanup P w)))"
    by (simp add: device_cleanup_def deactivate_def cleanupNote_def)
  from cleanup_job_written [OF assms gs mem g(2) d, of "''TEST: ''" False]
  show "\<exists>k \<ge> tick w.
      d\<lparr>active := False, session_status := ''logged_out'',
        last_activity := Some (clock P k),
        current_user_id := None, current_session_start := None,
        device_notes :=
          append_note (device_notes d)
            (''TEST: Deactivated by cleanup job on '' @ toISOString P (clock P (Suc k)))\<rparr>
      \<in> set (rows (snd (test_device_cleanup P w)))"
    by (simp add: test_device_cleanup_def deactivate_def cleanupNote_def)
next
  fix gs g d
  assume gs: "group_devices (devices_found w) [] = Inr gs"
    and g: "g \<in> set gs" "1 < length (snd g)"
    and d: "d \<in> set (tl (sort_by_activity_simple (snd g)))"
  from g(1) have mem: "(fst g, snd g) \<in> set gs"
    by simp
  from simple_test_written [OF assms gs mem g(2) d]
  show "\<exists>k \<ge> tick w.
      d\<lparr>active := False, session_status := ''logged_out'', last_activity := Some (clock P k)\<rparr>
      \<in> set (rows (snd (simple_test P w)))"
    by (simp add: log_out_def)
next
  fix d
  assume "truthy (device_fingerprint newDevice) \<and> (\<forall>x. \<not> delete_fails P x)"
    and "d \<in> set (existingDevices newDevice w)"
    and "ident d \<noteq> ident (primaryDevice P newDevice (existingDevices newDevice w) w)"
  with device_hook_written [OF assms(1) _ assms(2), of newDevice d]
  show "\<exists>k \<ge> tick w.
      d\<lparr>active := False, session_status := ''logged_out'', last_activity := Some (clock P k)\<rparr>
      \<in> set (rows (snd (onRecordAfterCreateSuccess P newDevice w)))"
    by (simp add: log_out_def onRecordAfterCreateSuccess_def)
next
  assume thr: "\<exists>d \<in> set (allDevices w). \<exists>fp \<in> set inherited_names. device_fingerprint d = Some fp"
  then have "allDevices w \<noteq> []"
    by auto
  moreover from thr have "group_devices (allDevices w) [] = Inl TypeError"
    by (auto simp: group_devices_eq)
  ultimately show "device_cleanup P w = (Caught TypeError, w)"
    and "test_device_cleanup P w = (Caught TypeError, w)"
    by (simp_all add: device_cleanup_def test_device_cleanup_def cleanup_job_def)
next
  assume thr: "\<exists>d \<in> set (devices_found w). \<exists>fp \<in> set inherited_names. device_fingerprint d = Some fp"
  then have "devices_found w \<noteq> []"
    by auto
  moreover from thr have "group_devices (devices_found w) [] = Inl TypeError"
    by (auto simp: group_devices_eq)
  ultimately show "simple_test P w = (Caught TypeError, w)"
    by (simp add: simple_test_def)
next
  show "(\<exists>gs. group_devices xs [] = Inr gs) \<longleftrightarrow>
      \<not> (\<exists>d \<in> set xs. \<exists>fp \<in> set inherited_names. device_fingerprint d = Some fp)"
    by (auto simp: group_devices_eq)
qed (simp_all add: append_note_def)

theorem loser_transition_witness:
  "(\<forall>x. \<not> save_fails ticking x)
   \<and> distinct (map ident (rows pair_and_stray))
   \<and> group_devices (allDevices pair_and_stray) [] =
        Inr [(''F1'', [dev ''a'' (Some ''F1'') True (Some ''u1'') (Some 10) (Some 1) (Some 0),
                       dev ''b'' (Some ''F1'') True (Some ''u2'') (Some 5) (Some 7) (Some 0)])]
   \<and> dev ''b'' (Some ''F1'') True (Some ''u2'') (Some 5) (Some 7) (Some 0)
        \<in> set (tl (sort_by_activity
             [dev ''a'' (Some ''F1'') True (Some ''u1'') (Some 10) (Some 1) (Some 0),
              dev ''b'' (Some ''F1'') True (Some ''u2'') (Some 5) (Some 7) (Some 0)]))
   \<and> (\<exists>k \<ge> tick pair_and_stray.
        (dev ''b'' (Some ''F1'') True (Some ''u2'') (Some 5) (Some 7) (Some 0))
          \<lparr>active := False, session_status := ''logged_out'',
           last_activity := Some (clock ticking k),
           current_user_id := None, current_session_start := None,
           device_notes :=
             append_note None (''Deactivated by cleanup job on '' @ toISOString ticking (clock ticking (Suc k)))\<rparr>
        \<in> set (rows (snd (device_cleanup ticking pair_and_stray))))"
proof -
  let ?a = "dev ''a'' (Some ''F1'') True (Some ''u1'') (Some 10) (Some 1) (Some 0)"
  let ?b = "dev ''b'' (Some ''F1'') True (Some ''u2'') (Some 5) (Some 7) (Some 0)"
  have h1: "\<forall>x. \<not> save_fails ticking x"
    by (simp add: ticking_def)
  have h2: "distinct (map ident (rows pair_and_stray))"
    by (simp add: pair_and_stray_def dev_def)
  have grp: "group_devices (allDevices pair_and_stray) [] = Inr [(''F1'', [?a, ?b])]"
    by (simp add: allDevices_def findRecordsByFilter_def by_activity_used_created_def
        sort_desc_def pair_and_stray_def dev_def inherited_names_def)
  have mem: "(''F1'', [?a, ?b]) \<in> set [(''F1'', [?a, ?b])]"
    by simp
  have los: "?b \<in> set (tl (sort_by_activity [?a, ?b]))"
    by (simp add: sort_by_activity_def activity_def dev_def)
  have none: "device_notes ?b = None"
    by (simp add: dev_def)
  have len: "1 < length (snd (''F1'', [?a, ?b]))"
    by simp
  from loser_transition [OF h1 h2, THEN conjunct1, rule_format, OF grp mem len]
  have "\<forall>d \<in> set (tl (sort_by_activity [?a, ?b])). \<exists>k \<ge> tick pair_and_stray.
              d\<lparr>active := False, session_status := ''logged_out'',
                last_activity := Some (clock ticking k),
                current_user_id := None, current_session_start := None,
                device_notes :=
                  append_note (device_notes d)
                    (''Deactivated by cleanup job on '' @ toISOString ticking (clock ticking (Suc k)))\<rparr>
              \<in> set (rows (snd (device_cleanup ticking pair_and_stray)))"
    by simp
  from this [rule_format, OF los] have "\<exists>k \<ge> tick pair_and_stray.
        ?b\<lparr>active := False, session_status := ''logged_out'',
           last_activity := Some (clock ticking k),
           current_user_id := None, current_session_start := None,
           device_notes :=
             append_note None
               (''Deactivated by cleanup job on '' @ toISOString ticking (clock ticking (Suc k)))\<rparr>
        \<in> set (rows (snd (device_cleanup ticking pair_and_stray)))"
    unfolding none .
  with h1 h2 grp los show ?thesis
    by (intro conjI)
qed

theorem simple_sweep_keeps_user_and_notes:
  "ident (rows (snd (simple_test ticking pair_and_stray)) ! 1) = ''b''
   \<and> active (rows (snd (simple_test ticking pair_and_stray)) ! 1) = False
   \<and> session_status (rows (snd (simple_test ticking pair_and_stray)) ! 1) = ''logged_out''
   \<and> current_user_id (rows (snd (simple_test ticking pair_and_stray)) ! 1) = Some ''u2''
   \<and> device_notes (rows (snd (simple_test ticking pair_and_stray)) ! 1) = None"
  by code_simp

text \<open>
  C2, as the code has it. The sweep compares activity only: the primary of a group is a
  device of greatest activity, and among the devices of that activity it is the one that
  comes first in the group, that is, first in the query result; neither \<open>active\<close> nor
  the id is looked at. In a creation hook the new record stays primary unless an
  existing record is strictly more recent. Each group lists its devices in the order of
  the query.
\<close>

theorem ties_keep_query_order:
  "(ds \<noteq> [] \<longrightarrow>
      hd (sort_by_activity ds) \<in> set ds
      \<and> (\<forall>d \<in> set ds. activity d \<le> activity (hd (sort_by_activity ds)))
      \<and> hd (sort_by_activity ds) =
          hd (filter (\<lambda>d. activity d = activity (hd (sort_by_activity ds))) ds))
   \<and> (\<forall>gs. group_devices (allDevices w) [] = Inr gs \<longrightarrow>
        (\<forall>g \<in> set (for_in gs).
           snd g = filter (\<lambda>d. device_fingerprint d = Some (fst g)) (allDevices w)))
   \<and> ((\<forall>d \<in> set existing. \<forall>t. deviceActivity d = Some t \<longrightarrow> t \<le> fst (primaryActivity P newDevice w)) \<longrightarrow>
        primaryDevice P newDevice existing w = newDevice)"
proof (intro conjI impI ballI allI)
  assume "ds \<noteq> []"
  then show "hd (sort_by_activity ds) \<in> set ds"
    by (rule sort_by_activity_hd(1))
next
  fix d
  assume "ds \<noteq> []" "d \<in> set ds"
  with sort_by_activity_hd(2) [of ds] show "activity d \<le> activity (hd (sort_by_activity ds))"
    by blast
next
  assume "ds \<noteq> []"
  then show "hd (sort_by_activity ds) =
      hd (filter (\<lambda>d. activity d = activity (hd (sort_by_activity ds))) ds)"
    by (rule sort_by_activity_hd(3))
next
  fix gs g
  assume "group_devices (allDevices w) [] = Inr gs" and "g \<in> set (for_in gs)"
  then have "(fst g, snd g) \<in> set (grouped (allDevices w) [])"
    by (auto dest: group_devices_Inr)
  then show "snd g = filter (\<lambda>d. device_fingerprint d = Some (fst g)) (allDevices w)"
    unfolding grouped_iff by simp
next
  assume "\<forall>d \<in> set existing. \<forall>t. deviceActivity d = Some t \<longrightarrow> t \<le> fst (primaryActivity P newDevice w)"
  then show "primaryDevice P newDevice existing w = newDevice"
    by (simp add: primaryDevice_def find_primary_tie)
qed

theorem ties_keep_query_order_witness:
  "[dev ''b'' (Some ''F4'') False None (Some 10) (Some 5) (Some 0),
    dev ''a'' (Some ''F4'') True (Some ''u1'') (Some 10) None (Some 0)] \<noteq> []
   \<and> hd (sort_by_activity
        [dev ''b'' (Some ''F4'') False None (Some 10) (Some 5) (Some 0),
         dev ''a'' (Some ''F4'') True (Some ''u1'') (Some 10) None (Some 0)])
      = dev ''b'' (Some ''F4'') False None (Some 10) (Some 5) (Some 0)
   \<and> group_devices (allDevices tie_pair) [] =
        Inr [(''F4'', [dev ''b'' (Some ''F4'') False None (Some 10) (Some 5) (Some 0),
                       dev ''a'' (Some ''F4'') True (Some ''u1'') (Some 10) None (Some 0)])]
   \<and> [dev ''b'' (Some ''F4'') False None (Some 10) (Some 5) (Some 0),
       dev ''a'' (Some ''F4'') True (Some ''u1'') (Some 10) None (Some 0)]
      = filter (\<lambda>d. device_fingerprint d = Some ''F4'') (allDevices tie_pair)
   \<and> deviceActivity (dev ''b'' (Some ''F4'') False None (Some 10) (Some 5) (Some 0)) = Some 10
   \<and> fst (primaryActivity ticking (dev ''a'' (Some ''F4'') True (Some ''u1'') (Some 10) None (Some 10)) tie_pair) = 10
   \<and> primaryDevice ticking (dev ''a'' (Some ''F4'') True (Some ''u1'') (Some 10) None (Some 10))
        [dev ''b'' (Some ''F4'') False None (Some 10) (Some 5) (Some 0)] tie_pair
      = dev ''a'' (Some ''F4'') True (Some ''u1'') (Some 10) None (Some 10)"
proof -
  let ?b = "dev ''b'' (Some ''F4'') False None (Some 10) (Some 5) (Some 0)"
  let ?a = "dev ''a'' (Some ''F4'') True (Some ''u1'') (Some 10) None (Some 0)"
  let ?n = "dev ''a'' (Some ''F4'') True (Some ''u1'') (Some 10) None (Some 10)"
  note inst = ties_keep_query_order [of "[?b, ?a]" tie_pair "[?b]" ticking ?n]
  have ne: "[?b, ?a] \<noteq> []"
    by simp
  have act: "activity ?a = 10" "activity ?b = 10"
    by (simp_all add: activity_def dev_def)
  have "?b \<noteq> ?a"
    by (simp add: dev_def)
  with inst [THEN conjunct1, THEN mp, OF ne] act
  have first: "hd (sort_by_activity [?b, ?a]) = ?b"
    by (auto split: if_splits)
  have grp: "group_devices (allDevices tie_pair) [] = Inr [(''F4'', [?b, ?a])]"
    by (simp add: allDevices_def findRecordsByFilter_def by_activity_used_created_def
        sort_desc_def tie_pair_def dev_def inherited_names_def)
  have mem: "(''F4'', [?b, ?a]) \<in> set (for_in [(''F4'', [?b, ?a])])"
    by simp
  from inst [THEN conjunct2, THEN conjunct1, rule_format, OF grp mem]
  have order: "[?b, ?a] = filter (\<lambda>d. device_fingerprint d = Some ''F4'') (allDevices tie_pair)"
    by simp
  have tie: "\<forall>d \<in> set [?b]. \<forall>t. deviceActivity d = Some t \<longrightarrow> t \<le> fst (primaryActivity ticking ?n tie_pair)"
    by (simp add: deviceActivity_def primaryActivity_def dev_def)
  from inst [THEN conjunct2, THEN conjunct2, THEN mp, OF tie]
  have "primaryDevice ticking ?n [?b] tie_pair = ?n" .
  moreover have "deviceActivity ?b = Some 10" "fst (primaryActivity ticking ?n tie_pair) = 10"
    by (simp_all add: deviceActivity_def primaryActivity_def dev_def)
  ultimately show ?thesis
    using ne first grp order by (intro conjI)
qed

theorem inactive_record_wins_tie:
  "activity (rows tie_pair ! 0) = activity (rows tie_pair ! 1)
   \<and> active (rows tie_pair ! 0) = False
   \<and> active (rows tie_pair ! 1) = True
   \<and> ident (rows tie_pair ! 0) = ''b''
   \<and> ident (rows tie_pair ! 1) = ''a''
   \<and> ident (rows (snd (device_cleanup ticking tie_pair)) ! 0) = ''b''
   \<and> active (rows (snd (device_cleanup ticking tie_pair)) ! 0) = True
   \<and> ident (rows (snd (device_cleanup ticking tie_pair)) ! 1) = ''a''
   \<and> active (rows (snd (device_cleanup ticking tie_pair)) ! 1) = False"
  by code_simp

lemma activity_spec:
  "activity d = (case spec_effective_timestamp d of Some t \<Rightarrow> t | None \<Rightarrow> 0)"
  "deviceActivity d = spec_effective_timestamp d"
  by (auto simp: activity_def deviceActivity_def spec_effective_timestamp_def split: option.splits)

lemma sorted_sort_by_activity:
  "sorted_wrt (\<lambda>a b. activity b \<le> activity a) (sort_by_activity ds)"
proof -
  have "sorted (map (\<lambda>d. - activity d) (sort_key (\<lambda>d. - activity d) ds))"
    by (rule sorted_sort_key)
  then show ?thesis
    by (simp add: sorted_map sort_by_activity_def)
qed

lemma sorted_sort_by_activity_simple:
  "sorted_wrt (\<lambda>a b. activity_simple b \<le> activity_simple a) (sort_by_activity_simple ds)"
proof -
  have "sorted (map (\<lambda>d. - activity_simple d) (sort_key (\<lambda>d. - activity_simple d) ds))"
    by (rule sorted_sort_key)
  then show ?thesis
    by (simp add: sorted_map sort_by_activity_simple_def)
qed

text \<open>
  C3, as the code has it. The daily sweep and its test copy rank every device by the
  specification's timestamp (\<open>last_activity\<close>, else \<open>last_used\<close>, else \<open>created\<close>; the
  epoch when all are unset): the sorted group is the group in descending order of it. A
  creation hook ranks the existing devices by the same timestamp: an existing device
  that is selected has the greatest one. The other two rankings differ. The two-minute
  test sweep sorts a group in descending order of \<open>last_activity\<close>, else \<open>created\<close>, else
  the epoch: \<open>last_used\<close> is not read. A hook ranks the new record by \<open>last_used\<close>, else
  \<open>created\<close>, else the current time: its \<open>last_activity\<close> is not read.
\<close>

theorem ranking_timestamp:
  "activity d = (case spec_effective_timestamp d of Some t \<Rightarrow> t | None \<Rightarrow> 0)
   \<and> sorted_wrt (\<lambda>a b. activity b \<le> activity a) (sort_by_activity ds)
   \<and> mset (sort_by_activity ds) = mset ds
   \<and> (primaryDevice P newDevice existing w \<noteq> newDevice \<longrightarrow>
        primaryDevice P newDevice existing w \<in> set existing
        \<and> (\<forall>x \<in> set existing.
              spec_effective_timestamp x
                \<le> spec_effective_timestamp (primaryDevice P newDevice existing w)))
   \<and> sorted_wrt (\<lambda>a b. activity_simple b \<le> activity_simple a) (sort_by_activity_simple ds)
   \<and> mset (sort_by_activity_simple ds) = mset ds
   \<and> activity_simple d =
        (if last_activity d \<noteq> None then the (last_activity d)
         else if created d \<noteq> None then the (created d) else 0)
   \<and> activity_simple (d\<lparr>last_used := u\<rparr>) = activity_simple d
   \<and> fst (primaryActivity P newDevice w) =
        (if last_used newDevice \<noteq> None then the (last_used newDevice)
         else if created newDevice \<noteq> None then the (created newDevice)
         else clock P (tick w))
   \<and> fst (primaryActivity P (newDevice\<lparr>last_activity := a\<rparr>) w) = fst (primaryActivity P newDevice w)"
proof (intro conjI impI)
  show "mset (sort_by_activity_simple ds) = mset ds"
    by (simp add: sort_by_activity_simple_def)
  show "activity_simple d =
        (if last_activity d \<noteq> None then the (last_activity d)
         else if created d \<noteq> None then the (created d) else 0)"
    by (auto simp: activity_simple_def split: option.splits)
  show "fst (primaryActivity P newDevice w) =
        (if last_used newDevice \<noteq> None then the (last_used newDevice)
         else if created newDevice \<noteq> None then the (created newDevice)
         else clock P (tick w))"
    by (auto simp: primaryActivity_def reading_def split: option.splits)
  show "activity d = (case spec_effective_timestamp d of Some t \<Rightarrow> t | None \<Rightarrow> 0)"
    by (rule activity_spec)
  show "sorted_wrt (\<lambda>a b. activity b \<le> activity a) (sort_by_activity ds)"
    by (rule sorted_sort_by_activity)
  show "mset (sort_by_activity ds) = mset ds"
    by (simp add: sort_by_activity_def)
  show "sorted_wrt (\<lambda>a b. activity_simple b \<le> activity_simple a) (sort_by_activity_simple ds)"
    by (rule sorted_sort_by_activity_simple)
  show "activity_simple (d\<lparr>last_used := u\<rparr>) = activity_simple d"
    by (simp add: activity_simple_def split: option.splits)
  show "fst (primaryActivity P (newDevice\<lparr>last_activity := a\<rparr>) w) = fst (primaryActivity P newDevice w)"
    by (simp add: primaryActivity_def split: option.splits)
next
  assume other: "primaryDevice P newDevice existing w \<noteq> newDevice"
  obtain p t where found: "find_primary existing (newDevice, fst (primaryActivity P newDevice w)) = (p, t)"
    by (cases "find_primary existing (newDevice, fst (primaryActivity P newDevice w))")
  then have p: "primaryDevice P newDevice existing w = p"
    by (simp add: primaryDevice_def)
  from find_primary_greatest [OF found] other p
  have "p \<in> set existing" "deviceActivity p = Some t" "\<forall>x \<in> set existing. deviceActivity x \<le> Some t"
    by auto
  then show "primaryDevice P newDevice existing w \<in> set existing"
    and "\<forall>x \<in> set existing.
          spec_effective_timestamp x \<le> spec_effective_timestamp (primaryDevice P newDevice existing w)"
    by (simp_all add: p activity_spec)
qed

theorem ranking_timestamp_witness:
  "primaryDevice ticking (dev ''b'' (Some ''F1'') True (Some ''u2'') (Some 5) (Some 7) (Some 0))
     [dev ''a'' (Some ''F1'') True (Some ''u1'') (Some 10) (Some 1) (Some 0)] pair_and_stray
     \<noteq> dev ''b'' (Some ''F1'') True (Some ''u2'') (Some 5) (Some 7) (Some 0)
   \<and> primaryDevice ticking (dev ''b'' (Some ''F1'') True (Some ''u2'') (Some 5) (Some 7) (Some 0))
        [dev ''a'' (Some ''F1'') True (Some ''u1'') (Some 10) (Some 1) (Some 0)] pair_and_stray
       \<in> set [dev ''a'' (Some ''F1'') True (Some ''u1'') (Some 10) (Some 1) (Some 0)]"
proof -
  let ?a = "dev ''a'' (Some ''F1'') True (Some ''u1'') (Some 10) (Some 1) (Some 0)"
  let ?b = "dev ''b'' (Some ''F1'') True (Some ''u2'') (Some 5) (Some 7) (Some 0)"
  have h: "primaryDevice ticking ?b [?a] pair_and_stray \<noteq> ?b"
    by (simp add: primaryDevice_def primaryActivity_def deviceActivity_def dev_def)
  from ranking_timestamp [of _ _ ticking ?b "[?a]" pair_and_stray,
      THEN conjunct2, THEN conjunct2, THEN conjunct2, THEN conjunct1, THEN mp, OF h]
  have "primaryDevice ticking ?b [?a] pair_and_stray \<in> set [?a]"
    by (rule conjunct1)
  with h show ?thesis
    by (intro conjI)
qed

theorem simple_sweep_ignores_last_used:
  "spec_effective_timestamp (rows used_pair ! 0) = Some 100
   \<and> spec_effective_timestamp (rows used_pair ! 1) = Some 50
   \<and> ident (rows (snd (simple_test ticking used_pair)) ! 0) = ident (rows used_pair ! 0)
   \<and> active (rows (snd (simple_test ticking used_pair)) ! 0) = False
   \<and> ident (rows (snd (simple_test ticking used_pair)) ! 1) = ident (rows used_pair ! 1)
   \<and> active (rows (snd (simple_test ticking used_pair)) ! 1) = True
   \<and> active (rows (snd (device_cleanup ticking used_pair)) ! 0) = True
   \<and> active (rows (snd (device_cleanup ticking used_pair)) ! 1) = False"
  by code_simp

lemma map_fst_insort_key:
  "map fst (insort_key (\<lambda>g. f (fst g)) x xs) = insort_key f (fst x) (map fst xs)"
  by (induction xs) simp_all

lemma map_fst_sort_key:
  "map fst (sort_key (\<lambda>g. f (fst g)) xs) = sort_key f (map fst xs)"
  by (induction xs) (simp_all add: map_fst_insort_key)

text \<open>
  C5, as the code has it. The monthly archival has a \<^verbatim>\<open>try\<close>/\<^verbatim>\<open>catch\<close> around each
  record: it makes every save of its plan that the store accepts, whatever happens to
  the others, and logs the id of each record whose save was refused. The daily sweep
  (and its test copy) has one \<^verbatim>\<open>try\<close>/\<^verbatim>\<open>catch\<close> around the whole pass. Its plan is the
  saves of the groups of more than one device, the groups taken in the order of
  \<^verbatim>\<open>for..in\<close>; it is empty when the grouping throws. The sweep makes the saves of its
  plan in order up to the first one that the store refuses, and none after it; the
  failure is caught there, and the job ends normally. When the grouping throws a
  \<open>TypeError\<close>, that is caught in the same place and nothing was written. The pass runs
  to its end when neither happens.
\<close>

theorem refused_save_containment:
  "rows (snd (monthly_cleanup P w)) =
     saved (filter (\<lambda>x. \<not> save_fails P x) (planned_archives P w)) (rows w)
   \<and> fst (monthly_cleanup P w) = map ident (filter (save_fails P) (planned_archives P w))
   \<and> rows (snd (device_cleanup P w)) =
       saved (takeWhile (\<lambda>x. \<not> save_fails P x) (planned_saves P [] w)) (rows w)
   \<and> (fst (device_cleanup P w) = Caught StoreWriteFailure \<longleftrightarrow>
        (\<exists>x \<in> set (planned_saves P [] w). save_fails P x))
   \<and> (fst (device_cleanup P w) = Caught TypeError \<longleftrightarrow>
        group_devices (allDevices w) [] = Inl TypeError)
   \<and> (fst (device_cleanup P w) = Completed \<longleftrightarrow>
        \<not> isl (group_devices (allDevices w) [])
        \<and> (\<forall>x \<in> set (planned_saves P [] w). \<not> save_fails P x))
   \<and> rows (snd (test_device_cleanup P w)) =
       saved (takeWhile (\<lambda>x. \<not> save_fails P x) (planned_saves P ''TEST: '' w)) (rows w)
   \<and> (fst (test_device_cleanup P w) = Caught StoreWriteFailure \<longleftrightarrow>
        (\<exists>x \<in> set (planned_saves P ''TEST: '' w). save_fails P x))
   \<and> (fst (test_device_cleanup P w) = Caught TypeError \<longleftrightarrow>
        group_devices (allDevices w) [] = Inl TypeError)
   \<and> (fst (test_device_cleanup P w) = Completed \<longleftrightarrow>
        \<not> isl (group_devices (allDevices w) [])
        \<and> (\<forall>x \<in> set (planned_saves P ''TEST: '' w). \<not> save_fails P x))
   \<and> (isl (group_devices (allDevices w) []) \<longrightarrow>
        planned_saves P pre w = []
        \<and> snd (device_cleanup P w) = w \<and> snd (test_device_cleanup P w) = w)
   \<and> (\<forall>gs. group_devices (allDevices w) [] = Inr gs \<longrightarrow>
        planned_saves P pre w = planned_groups P pre (for_in gs) (tick w)
        \<and> mset (for_in gs) = mset gs
        \<and> map fst (for_in gs) =
            sort_key (\<lambda>fp. the (array_index fp)) (filter (\<lambda>fp. array_index fp \<noteq> None) (map fst gs))
            @ filter (\<lambda>fp. array_index fp = None) (map fst gs))"
proof -
  have thrown: "planned_saves P pre w = []
      \<and> snd (device_cleanup P w) = w \<and> snd (test_device_cleanup P w) = w"
    if "isl (group_devices (allDevices w) [])"
  proof -
    from that obtain e where e: "group_devices (allDevices w) [] = Inl e"
      by (cases "group_devices (allDevices w) []") auto
    then have "allDevices w \<noteq> []"
      by auto
    with e show ?thesis
      by (simp add: planned_saves_def device_cleanup_def test_device_cleanup_def cleanup_job_def)
  qed
  have keys: "map fst (for_in gs) =
      sort_key (\<lambda>fp. the (array_index fp)) (filter (\<lambda>fp. array_index fp \<noteq> None) (map fst gs))
      @ filter (\<lambda>fp. array_index fp = None) (map fst gs)" for gs :: groups
    by (simp add: for_in_def map_fst_sort_key [of "\<lambda>fp. the (array_index fp)"] filter_map comp_def)
  have planned: "planned_saves P pre w = planned_groups P pre (for_in gs) (tick w)
      \<and> mset (for_in gs) = mset gs
      \<and> map fst (for_in gs) =
          sort_key (\<lambda>fp. the (array_index fp)) (filter (\<lambda>fp. array_index fp \<noteq> None) (map fst gs))
          @ filter (\<lambda>fp. array_index fp = None) (map fst gs)"
    if "group_devices (allDevices w) [] = Inr gs" for gs
    using that keys [of gs] by (simp add: planned_saves_def)
  from thrown planned show ?thesis
    unfolding device_cleanup_def test_device_cleanup_def
    by (intro conjI monthly_cleanup_plan cleanup_job_plan impI allI)
      (simp_all add: device_cleanup_def test_device_cleanup_def)
qed

theorem refused_save_containment_witness:
  "(\<exists>x \<in> set (planned_saves refusing [] two_groups). save_fails refusing x)
   \<and> fst (device_cleanup refusing two_groups) = Caught StoreWriteFailure
   \<and> rows (snd (device_cleanup refusing two_groups)) =
       saved (takeWhile (\<lambda>x. \<not> save_fails refusing x) (planned_saves refusing [] two_groups))
         (rows two_groups)
   \<and> isl (group_devices (allDevices inherited_pair) [])
   \<and> fst (device_cleanup ticking inherited_pair) = Caught TypeError
   \<and> snd (device_cleanup ticking inherited_pair) = inherited_pair"
proof -
  have "ident (planned_saves refusing [] two_groups ! 1) = ''a2''"
    by code_simp
  moreover have "1 < length (planned_saves refusing [] two_groups)"
    by code_simp
  ultimately have ex: "\<exists>x \<in> set (planned_saves refusing [] two_groups). save_fails refusing x"
    by (auto simp: refusing_def intro!: bexI [of _ "planned_saves (ticking\<lparr>save_fails := \<lambda>d. ident d = ''a2''\<rparr>) [] two_groups ! 1"])
  note inst = refused_save_containment [of refusing two_groups]
  from inst [THEN conjunct2, THEN conjunct2, THEN conjunct2, THEN conjunct1] ex
  have caught: "fst (device_cleanup refusing two_groups) = Caught StoreWriteFailure"
    by (rule iffD2)
  note thrown = refused_save_containment [of ticking inherited_pair]
  have inl: "group_devices (allDevices inherited_pair) [] = Inl TypeError"
    by code_simp
  then have isl: "isl (group_devices (allDevices inherited_pair) [])"
    by simp
  from thrown [THEN conjunct2, THEN conjunct2, THEN conjunct2, THEN conjunct2, THEN conjunct1] inl
  have type: "fst (device_cleanup ticking inherited_pair) = Caught TypeError"
    by (rule iffD2)
  from thrown [THEN conjunct2, THEN conjunct2, THEN conjunct2, THEN conjunct2, THEN conjunct2,
      THEN conjunct2, THEN conjunct2, THEN conjunct2, THEN conjunct2, THEN conjunct2,
      THEN conjunct1, THEN mp, OF isl]
  have same: "snd (device_cleanup ticking inherited_pair) = inherited_pair"
    by simp
  from ex caught inst [THEN conjunct2, THEN conjunct2, THEN conjunct1] isl type same show ?thesis
    by (intro conjI)
qed

theorem refused_save_ends_the_sweep:
  "save_fails refusing (rows two_groups ! 1) = True
   \<and> save_fails refusing (rows two_groups ! 3) = False
   \<and> fst (device_cleanup refusing two_groups) = Caught StoreWriteFailure
   \<and> rows (snd (device_cleanup refusing two_groups)) ! 3 = rows two_groups ! 3
   \<and> active (rows (snd (device_cleanup refusing two_groups)) ! 3) = True
   \<and> active (rows (snd (device_cleanup ticking two_groups)) ! 3) = False"
  by code_simp




end
